theory Spec2Isabelle
  imports Main
begin

section \<open>JavaScript values as the program sees them\<close>

text \<open>
  The schemas, the frontmatter and the run inputs of markdownlang are plain JavaScript
  values produced by a YAML or JSON parser. An object is an association list of its own
  properties in the order in which \<open>Object.entries\<close> enumerates them (index-like keys
  first, the others as they were inserted); a well-formed object has no key twice
  (\<open>wf_json\<close>). Numbers are the safe integers, those of absolute value below
  \<open>2^53\<close>, which a double holds exactly and prints digit by digit; a number with a
  fraction or beyond that range is outside the model.
\<close>

datatype json =
    JNull
  | JBool bool
  | JNum int
  | JStr string
  | JArr "json list"
  | JObj "(string \<times> json) list"

text \<open>
  The exceptions. A program source is rejected by one of the four errors \<open>parseSource\<close>
  throws itself or by the exception of the YAML loader, which it lets through.
\<close>

datatype malformed =
    NoOpeningDelimiter
  | NoClosingDelimiter
  | YamlException
  | NotAnObject
  | MissingField string

datatype error =
    MalformedProgram malformed
  | SourceNotFound
  | TypeError
  | SyntaxError
  | UnknownTool string
  | NoImportsDeclared string
  | EmptyResponse
  | MalformedOutput
  | IterationLimitExceeded

fun wf_json :: "json \<Rightarrow> bool" where
  "wf_json (JArr xs) = list_all wf_json xs"
| "wf_json (JObj kvs) = (distinct (map fst kvs) \<and> list_all (\<lambda>kv. wf_json (snd kv)) kvs)"
| "wf_json (JNum n) = (\<bar>n\<bar> \<le> 9007199254740991)"
| "wf_json _ = True"

text \<open>The values in which no object has a property named \<open>__proto__\<close>.\<close>

fun proto_free :: "json \<Rightarrow> bool" where
  "proto_free (JArr xs) = list_all proto_free xs"
| "proto_free (JObj kvs) =
     (''__proto__'' \<notin> set (map fst kvs) \<and> list_all (\<lambda>kv. proto_free (snd kv)) kvs)"
| "proto_free _ = True"

text \<open>JavaScript truthiness: \<open>null\<close>, \<open>false\<close>, \<open>0\<close> and the empty string are falsy.\<close>

fun truthy :: "json \<Rightarrow> bool" where
  "truthy JNull = False"
| "truthy (JBool b) = b"
| "truthy (JNum n) = (n \<noteq> 0)"
| "truthy (JStr s) = (s \<noteq> [])"
| "truthy (JArr _) = True"
| "truthy (JObj _) = True"

text \<open>\<open>typeof v === "object"\<close>: true of objects, of arrays and of \<open>null\<close>.\<close>

fun typeof_object :: "json \<Rightarrow> bool" where
  "typeof_object JNull = True"
| "typeof_object (JArr _) = True"
| "typeof_object (JObj _) = True"
| "typeof_object _ = False"

text \<open>The decimal name of an array index.\<close>

definition digit_char :: "nat \<Rightarrow> char" where
  "digit_char d = char_of (48 + d)"

fun show_nat :: "nat \<Rightarrow> string" where
  "show_nat n = (if n < 10 then [digit_char n] else show_nat (n div 10) @ [digit_char (n mod 10)])"

declare show_nat.simps [simp del]

text \<open>
  \<open>Object.entries(v)\<close> and \<open>Object.keys(v)\<close>: the own enumerable properties. An array
  has its indices, a string its characters, a number or a boolean none.
\<close>

fun entries :: "json \<Rightarrow> (string \<times> json) list" where
  "entries (JObj kvs) = kvs"
| "entries (JArr xs) = zip (map show_nat [0..<length xs]) xs"
| "entries (JStr s) = zip (map show_nat [0..<length s]) (map (\<lambda>c. JStr [c]) s)"
| "entries _ = []"

definition keys :: "json \<Rightarrow> string list" where
  "keys v = map fst (entries v)"

text \<open>Reading \<open>o[k]\<close> (\<open>None\<close> is \<open>undefined\<close>) and the assignment \<open>o[k] = v\<close>,
  which keeps the place of a key the object already has and appends a new one.\<close>

definition get :: "(string \<times> json) list \<Rightarrow> string \<Rightarrow> json option" where
  "get kvs k = map_of kvs k"

fun assign :: "string \<Rightarrow> json \<Rightarrow> (string \<times> json) list \<Rightarrow> (string \<times> json) list" where
  "assign k v [] = [(k, v)]"
| "assign k v (p # ps) = (if fst p = k then (k, v) # ps else p # assign k v ps)"

text \<open>A property read used as a condition: \<open>undefined\<close> is falsy.\<close>

definition present :: "json option \<Rightarrow> bool" where
  "present r = (case r of None \<Rightarrow> False | Some v \<Rightarrow> truthy v)"

section \<open>Schema normalisation: \<open>prepareSchemaForStrictMode\<close>\<close>

definition supportedKeys :: "string list" where
  "supportedKeys = [''type'', ''properties'', ''required'', ''items'', ''description'',
     ''enum'', ''const'', ''anyOf'', ''oneOf'', ''$ref'', ''$defs'', ''additionalProperties'']"

text \<open>The first loop: copy the supported keys of the schema into a fresh object.\<close>

definition copy_step :: "string \<times> json \<Rightarrow> (string \<times> json) list \<Rightarrow> (string \<times> json) list" where
  "copy_step kv result =
     (if fst kv \<in> set supportedKeys then assign (fst kv) (snd kv) result else result)"

definition copy_supported :: "(string \<times> json) list \<Rightarrow> (string \<times> json) list" where
  "copy_supported es = fold copy_step es []"

text \<open>
  Building \<open>newProps\<close> from the processed entries, one assignment \<open>newProps[key] = \<dots>\<close>
  each. On an object literal the assignment to the key \<open>__proto__\<close> is a call of the
  setter inherited from \<open>Object.prototype\<close>: it sets the prototype when the value is
  an object and does nothing otherwise, and in neither case does the object get a
  property of its own.
\<close>

definition build_step :: "string \<times> json \<Rightarrow> (string \<times> json) list \<Rightarrow> (string \<times> json) list" where
  "build_step kv acc = (if fst kv = ''__proto__'' then acc else assign (fst kv) (snd kv) acc)"

definition build_object :: "(string \<times> json) list \<Rightarrow> (string \<times> json) list" where
  "build_object es = fold build_step es []"

text \<open>The first exception of a sequence of results, or all the values.\<close>

fun collect :: "(error + 'a) list \<Rightarrow> error + 'a list" where
  "collect [] = Inr []"
| "collect (Inl e # _) = Inl e"
| "collect (Inr x # rs) = (case collect rs of Inl e \<Rightarrow> Inl e | Inr xs \<Rightarrow> Inr (x # xs))"

definition bind :: "error + 'a \<Rightarrow> ('a \<Rightarrow> error + 'b) \<Rightarrow> error + 'b" where
  "bind r f = (case r of Inl e \<Rightarrow> Inl e | Inr x \<Rightarrow> f x)"

text \<open>
  \<open>prepareSchemaForStrictMode\<close>. The guard returns what fails \<open>typeof schema === "object"\<close>
  or is falsy; an array passes the guard. The three rewriting steps update \<open>result\<close> in
  turn, each reading the object the step before left. \<open>result.anyOf.map\<close> is a call of
  the array method, so a truthy \<open>anyOf\<close> that is not an array throws a TypeError.
\<close>

function normalize :: "json \<Rightarrow> error + json" where
  "normalize schema =
     (if \<not> truthy schema \<or> \<not> typeof_object schema then Inr schema
      else
        let result = copy_supported (entries schema) in
        (case (case get result ''properties'' of
                None \<Rightarrow> Inr result
              | Some props \<Rightarrow>
                  if get result ''type'' = Some (JStr ''object'') \<and> truthy props
                  then (case collect (map (\<lambda>(key, v). map_sum id (Pair key) (normalize v)) (entries props)) of
                          Inl e \<Rightarrow> Inl e
                        | Inr newProps \<Rightarrow>
                            Inr (assign ''properties'' (JObj (build_object newProps))
                                  (assign ''additionalProperties'' (JBool False)
                                    (assign ''required'' (JArr (map JStr (keys props))) result))))
                  else Inr result) of
          Inl e \<Rightarrow> Inl e
        | Inr result \<Rightarrow>
           (case (case get result ''items'' of
                    None \<Rightarrow> Inr result
                  | Some items \<Rightarrow>
                      if get result ''type'' = Some (JStr ''array'') \<and> truthy items
                      then (case normalize items of
                              Inl e \<Rightarrow> Inl e
                            | Inr items' \<Rightarrow> Inr (assign ''items'' items' result))
                      else Inr result) of
              Inl e \<Rightarrow> Inl e
            | Inr result \<Rightarrow>
               (case get result ''anyOf'' of
                  None \<Rightarrow> Inr (JObj result)
                | Some anyOf \<Rightarrow>
                    if truthy anyOf
                    then (case anyOf of
                            JArr branches \<Rightarrow>
                              (case collect (map normalize branches) of
                                 Inl e \<Rightarrow> Inl e
                               | Inr branches' \<Rightarrow> Inr (JObj (assign ''anyOf'' (JArr branches') result)))
                          | _ \<Rightarrow> Inl TypeError)
                    else Inr (JObj result)))))"
  by pat_completeness auto
termination
proof (relation "measure size", goal_cases)
  case 1
  show ?case by simp
next
  have assign_set: "set (assign k v r) \<subseteq> insert (k, v) (set r)" for k v r
    by (induction r) auto
  have get_assign_other: "get (assign k' v r) k = get r k" if "k \<noteq> k'" for k k' v r
    using that by (induction r) (auto simp: get_def)
  have copy_set: "set (fold copy_step es acc) \<subseteq> set es \<union> set acc" for es acc
  proof (induction es arbitrary: acc)
    case Nil
    show ?case by simp
  next
    case (Cons a es)
    have "set (copy_step a acc) \<subseteq> insert a (set acc)"
      using assign_set[of "fst a" "snd a" acc] by (auto simp: copy_step_def)
    with Cons[of "copy_step a acc"] show ?case by auto
  qed
  have get_copy: "(k, v) \<in> set es" if "get (copy_supported es) k = Some v" for k v es
    using that copy_set[of es "[]"] by (auto simp: get_def copy_supported_def dest: map_of_SomeD)
  have entries_le: "size v \<le> size s" if "(k, v) \<in> set (entries s)" for k v s
  proof (cases s)
    case (JArr xs)
    then have "v \<in> set xs" using that by (auto dest: set_zip_rightD)
    then have "size v \<le> size_list size xs" by (simp add: size_list_estimation')
    then show ?thesis using JArr by simp
  next
    case (JObj kvs)
    then have "(k, v) \<in> set kvs" using that by simp
    then have "size_prod (\<lambda>_. 0) size (k, v) \<le> size_list (size_prod (\<lambda>_. 0) size) kvs"
      by (simp add: size_list_estimation')
    then show ?thesis using JObj by simp
  qed (use that in \<open>auto dest!: set_zip_rightD\<close>)
  have entries_less: "size v < size s"
    if "(k, v) \<in> set (entries s)" "truthy s" "typeof_object s" for k v s
  proof (cases s)
    case (JArr xs)
    then have "v \<in> set xs" using that by (auto dest: set_zip_rightD)
    then have "size v \<le> size_list size xs" by (simp add: size_list_estimation')
    then show ?thesis using JArr by simp
  next
    case (JObj kvs)
    then have "(k, v) \<in> set kvs" using that by simp
    then have "size_prod (\<lambda>_. 0) size (k, v) \<le> size_list (size_prod (\<lambda>_. 0) size) kvs"
      by (simp add: size_list_estimation')
    then show ?thesis using JObj by simp
  qed (use that in auto)
  have field_less: "size v < size s"
    if "get (copy_supported (entries s)) k = Some v" "truthy s" "typeof_object s" for k v s
    using entries_less[OF get_copy[OF that(1)] that(2,3)] .
  {
    case (2 schema result props x key v)
    then have "size props < size schema" using field_less by auto
    moreover have "size v \<le> size props" using 2 entries_le[of key v props] by auto
    ultimately show ?case by simp
  next
    case (3 schema result b items)
    from 3(3) have "b = result \<or> (\<exists>P R. b = assign ''properties'' P
        (assign ''additionalProperties'' (JBool False) (assign ''required'' R result)))"
      by (auto split: option.splits if_splits sum.splits)
    then have "get b ''items'' = get result ''items''"
      by (auto simp: get_assign_other)
    then show ?case using 3 field_less[of schema "''items''" items] by auto
  next
    case (4 schema result b ba anyOf branches x)
    from 4(3) have "b = result \<or> (\<exists>P R. b = assign ''properties'' P
        (assign ''additionalProperties'' (JBool False) (assign ''required'' R result)))"
      by (auto split: option.splits if_splits sum.splits)
    then have "get b ''anyOf'' = get result ''anyOf''"
      by (auto simp: get_assign_other)
    moreover from 4(4) have "ba = b \<or> (\<exists>i. ba = assign ''items'' i b)"
      by (auto split: option.splits if_splits sum.splits)
    then have "get ba ''anyOf'' = get b ''anyOf''"
      by (auto simp: get_assign_other)
    ultimately have "size anyOf < size schema"
      using 4 field_less[of schema "''anyOf''" anyOf] by auto
    moreover have "size x \<le> size_list size branches"
      using 4 by (simp add: size_list_estimation')
    ultimately show ?case using 4 by simp
  }
qed

declare normalize.simps [simp del]

text \<open>
  The three rewriting steps of \<open>prepareSchemaForStrictMode\<close> one by one, over the
  function called on the nested schemas; \<open>normalize_steps\<close> below shows that
  \<open>normalize\<close> is their sequence.
\<close>

definition properties_step ::
  "(json \<Rightarrow> error + json) \<Rightarrow> (string \<times> json) list \<Rightarrow> error + (string \<times> json) list" where
  "properties_step f result =
     (case get result ''properties'' of
        None \<Rightarrow> Inr result
      | Some props \<Rightarrow>
          if get result ''type'' = Some (JStr ''object'') \<and> truthy props
          then (case collect (map (\<lambda>(key, v). map_sum id (Pair key) (f v)) (entries props)) of
                  Inl e \<Rightarrow> Inl e
                | Inr newProps \<Rightarrow>
                    Inr (assign ''properties'' (JObj (build_object newProps))
                          (assign ''additionalProperties'' (JBool False)
                            (assign ''required'' (JArr (map JStr (keys props))) result))))
          else Inr result)"

definition items_step ::
  "(json \<Rightarrow> error + json) \<Rightarrow> (string \<times> json) list \<Rightarrow> error + (string \<times> json) list" where
  "items_step f result =
     (case get result ''items'' of
        None \<Rightarrow> Inr result
      | Some items \<Rightarrow>
          if get result ''type'' = Some (JStr ''array'') \<and> truthy items
          then (case f items of
                  Inl e \<Rightarrow> Inl e
                | Inr items' \<Rightarrow> Inr (assign ''items'' items' result))
          else Inr result)"

definition anyOf_step ::
  "(json \<Rightarrow> error + json) \<Rightarrow> (string \<times> json) list \<Rightarrow> error + json" where
  "anyOf_step f result =
     (case get result ''anyOf'' of
        None \<Rightarrow> Inr (JObj result)
      | Some anyOf \<Rightarrow>
          if truthy anyOf
          then (case anyOf of
                  JArr branches \<Rightarrow>
                    (case collect (map f branches) of
                       Inl e \<Rightarrow> Inl e
                     | Inr branches' \<Rightarrow> Inr (JObj (assign ''anyOf'' (JArr branches') result)))
                | _ \<Rightarrow> Inl TypeError)
          else Inr (JObj result))"

text \<open>
  A value of the type \<open>JsonSchema\<close>: an object whose \<open>properties\<close>, when it has them,
  is an object of schemas, whose \<open>items\<close> is a schema, and whose \<open>anyOf\<close> is an array
  of schemas, as the casts of \<open>prepareSchemaForStrictMode\<close> take them to be.
\<close>

fun schema_typed :: "json \<Rightarrow> bool"
  and fields_typed :: "(string \<times> json) list \<Rightarrow> bool"
  and properties_typed :: "(string \<times> json) list \<Rightarrow> bool"
  and branches_typed :: "json list \<Rightarrow> bool" where
  "schema_typed (JObj kvs) = (distinct (map fst kvs) \<and> fields_typed kvs)"
| "schema_typed _ = False"
| "fields_typed [] = True"
| "fields_typed (kv # rest) =
     ((if fst kv = ''properties'' then
         (case snd kv of JObj ps \<Rightarrow> distinct (map fst ps) \<and> properties_typed ps | _ \<Rightarrow> False)
       else if fst kv = ''items'' then schema_typed (snd kv)
       else if fst kv = ''anyOf'' then
         (case snd kv of JArr branches \<Rightarrow> branches_typed branches | _ \<Rightarrow> False)
       else True)
      \<and> fields_typed rest)"
| "properties_typed [] = True"
| "properties_typed (kv # rest) = (schema_typed (snd kv) \<and> properties_typed rest)"
| "branches_typed [] = True"
| "branches_typed (x # xs) = (schema_typed x \<and> branches_typed xs)"

section \<open>Text of values: \<open>String\<close> and \<open>JSON.stringify\<close>\<close>

text \<open>
  A string is a list of code units; the model has the code units below 256. The
  white space of \<open>\s\<close> and of \<open>trim\<close> in that range is tab, line feed, vertical tab,
  form feed, carriage return, space and the no-break space; \<open>\w\<close> is a letter, a
  digit or the underscore.
\<close>

definition is_space :: "char \<Rightarrow> bool" where
  "is_space c = (of_char c \<in> {9, 10, 11, 12, 13, 32, 160 :: nat})"

definition is_word :: "char \<Rightarrow> bool" where
  "is_word c = (let n = (of_char c :: nat) in
     (65 \<le> n \<and> n \<le> 90) \<or> (97 \<le> n \<and> n \<le> 122) \<or> (48 \<le> n \<and> n \<le> 57) \<or> n = 95)"

definition trim :: "string \<Rightarrow> string" where
  "trim s = rev (dropWhile is_space (rev (dropWhile is_space s)))"

fun join :: "string \<Rightarrow> string list \<Rightarrow> string" where
  "join sep [] = []"
| "join sep [x] = x"
| "join sep (x # y # ys) = x @ sep @ join sep (y # ys)"

text \<open>The text of a number, for the safe integers of the model: the decimal digits,
  after the sign.\<close>

definition show_int :: "int \<Rightarrow> string" where
  "show_int n = (if n < 0 then CHR ''-'' # show_nat (nat (- n)) else show_nat (nat n))"

definition hex_char :: "nat \<Rightarrow> char" where
  "hex_char d = (if d < 10 then char_of (48 + d) else char_of (87 + d))"

text \<open>The escapes of \<open>JSON.stringify\<close> inside a string literal.\<close>

definition escape_char :: "char \<Rightarrow> string" where
  "escape_char c = (let n = (of_char c :: nat) in
     if c = CHR ''\"'' then [CHR 0x5C, CHR ''\"'']
     else if n = 92 then [CHR 0x5C, CHR 0x5C]
     else if n = 8 then [CHR 0x5C, CHR ''b'']
     else if n = 9 then [CHR 0x5C, CHR ''t'']
     else if n = 10 then [CHR 0x5C, CHR ''n'']
     else if n = 12 then [CHR 0x5C, CHR ''f'']
     else if n = 13 then [CHR 0x5C, CHR ''r'']
     else if n < 32 then [CHR 0x5C, CHR ''u'', CHR ''0'', CHR ''0'', hex_char (n div 16), hex_char (n mod 16)]
     else [c])"

definition quote :: "string \<Rightarrow> string" where
  "quote s = CHR ''\"'' # concat (map escape_char s) @ [CHR ''\"'']"

text \<open>\<open>JSON.stringify(v)\<close> with no indentation.\<close>

fun stringify :: "json \<Rightarrow> string" where
  "stringify JNull = ''null''"
| "stringify (JBool b) = (if b then ''true'' else ''false'')"
| "stringify (JNum n) = show_int n"
| "stringify (JStr s) = quote s"
| "stringify (JArr xs) = ''['' @ join '','' (map stringify xs) @ '']''"
| "stringify (JObj kvs) =
     ''{'' @ join '','' (map (\<lambda>(k, v). quote k @ '':'' @ stringify v) kvs) @ ''}''"

text \<open>
  \<open>String(v)\<close>. An array joins the texts of its elements with commas, \<open>null\<close> giving
  the empty text there. An object is \<open>[object Object]\<close> by the inherited \<open>toString\<close>;
  an own property \<open>toString\<close> of a parsed value is never a function, and the conversion
  then throws a TypeError.
\<close>

fun to_String :: "json \<Rightarrow> error + string" where
  "to_String JNull = Inr ''null''"
| "to_String (JBool b) = Inr (if b then ''true'' else ''false'')"
| "to_String (JNum n) = Inr (show_int n)"
| "to_String (JStr s) = Inr s"
| "to_String (JArr xs) =
     (case collect (map (\<lambda>x. if x = JNull then Inr [] else to_String x) xs) of
        Inl e \<Rightarrow> Inl e
      | Inr ts \<Rightarrow> Inr (join '','' ts))"
| "to_String (JObj kvs) =
     (if ''toString'' \<in> set (map fst kvs) then Inl TypeError else Inr ''[object Object]'')"

section \<open>Template rendering: \<open>renderTemplate\<close>\<close>

text \<open>
  \<open>key in data\<close> and \<open>data[key]\<close> look a property up on the object and then on its
  prototype chain. A parsed object inherits from \<open>Object.prototype\<close>, an array from
  \<open>Array.prototype\<close> first; what they inherit is a built-in function, except
  \<open>__proto__\<close>, which reads as the prototype object itself.
\<close>

datatype jsvalue =
    Json json
  | NativeFunction string
  | ObjectPrototype
  | ArrayPrototype

definition object_prototype :: "(string \<times> jsvalue) list" where
  "object_prototype =
     [(''constructor'', NativeFunction ''Object''),
      (''__defineGetter__'', NativeFunction ''__defineGetter__''),
      (''__defineSetter__'', NativeFunction ''__defineSetter__''),
      (''hasOwnProperty'', NativeFunction ''hasOwnProperty''),
      (''__lookupGetter__'', NativeFunction ''__lookupGetter__''),
      (''__lookupSetter__'', NativeFunction ''__lookupSetter__''),
      (''isPrototypeOf'', NativeFunction ''isPrototypeOf''),
      (''propertyIsEnumerable'', NativeFunction ''propertyIsEnumerable''),
      (''toString'', NativeFunction ''toString''),
      (''valueOf'', NativeFunction ''valueOf''),
      (''__proto__'', ObjectPrototype),
      (''toLocaleString'', NativeFunction ''toLocaleString'')]"

definition array_methods :: "string list" where
  "array_methods =
     [''at'', ''concat'', ''copyWithin'', ''fill'', ''find'', ''findIndex'', ''findLast'',
      ''findLastIndex'', ''lastIndexOf'', ''pop'', ''push'', ''reverse'', ''shift'',
      ''unshift'', ''slice'', ''sort'', ''splice'', ''includes'', ''indexOf'', ''join'',
      ''keys'', ''entries'', ''values'', ''forEach'', ''filter'', ''flat'', ''flatMap'',
      ''map'', ''every'', ''some'', ''reduce'', ''reduceRight'', ''toReversed'',
      ''toSorted'', ''toSpliced'', ''with'', ''toLocaleString'', ''toString'']"

definition array_prototype :: "(string \<times> jsvalue) list" where
  "array_prototype =
     [(''constructor'', NativeFunction ''Array''), (''__proto__'', ArrayPrototype)]
     @ map (\<lambda>m. (m, NativeFunction m)) array_methods"

text \<open>
  \<open>data[key]\<close>, with \<open>None\<close> when \<open>key in data\<close> is false. On \<open>null\<close>, a boolean, a
  number or a string the operator \<open>in\<close> throws a TypeError.
\<close>

definition lookup :: "json \<Rightarrow> string \<Rightarrow> error + jsvalue option" where
  "lookup data key =
     (case data of
        JObj kvs \<Rightarrow>
          Inr (case get kvs key of
                 Some v \<Rightarrow> Some (Json v)
               | None \<Rightarrow> map_of object_prototype key)
      | JArr xs \<Rightarrow>
          Inr (case get (entries (JArr xs)) key of
                 Some v \<Rightarrow> Some (Json v)
               | None \<Rightarrow>
                   if key = ''length'' then Some (Json (JNum (int (length xs))))
                   else (case map_of array_prototype key of
                           Some f \<Rightarrow> Some f
                         | None \<Rightarrow> map_of object_prototype key))
      | _ \<Rightarrow> Inl TypeError)"

text \<open>
  The text the callback returns for a value: \<open>JSON.stringify\<close> of what \<open>typeof\<close> calls
  an object, \<open>String\<close> of the rest. The prototype objects have no enumerable property
  of their own; a built-in function prints its name with a native body.
\<close>

definition value_text :: "jsvalue \<Rightarrow> error + string" where
  "value_text v =
     (case v of
        Json j \<Rightarrow> if typeof_object j then Inr (stringify j) else to_String j
      | NativeFunction name \<Rightarrow> Inr (''function '' @ name @ ''() { [native code] }'')
      | ObjectPrototype \<Rightarrow> Inr ''{}''
      | ArrayPrototype \<Rightarrow> Inr ''[]'')"

text \<open>
  One attempt of the pattern \<open>\{\{\s*\.(\w+)\s*\}\}\<close> at the head of the text: the
  key and the text after the match. The classes that follow one another are disjoint,
  so the greedy match is the only one.
\<close>

definition match_token :: "string \<Rightarrow> (string \<times> string) option" where
  "match_token s =
     (case s of
        c1 # c2 # s1 \<Rightarrow>
          if c1 = CHR ''{'' \<and> c2 = CHR ''{'' then
            (case dropWhile is_space s1 of
               d # s2 \<Rightarrow>
                 if d = CHR ''.'' \<and> takeWhile is_word s2 \<noteq> [] then
                   (case dropWhile is_space (dropWhile is_word s2) of
                      e1 # e2 # rest \<Rightarrow>
                        if e1 = CHR ''}'' \<and> e2 = CHR ''}''
                        then Some (takeWhile is_word s2, rest) else None
                    | _ \<Rightarrow> None)
                 else None
             | [] \<Rightarrow> None)
          else None
      | _ \<Rightarrow> None)"

text \<open>The callback of \<open>replace\<close>: the matched text and the captured key.\<close>

definition substitute :: "json \<Rightarrow> string \<Rightarrow> string \<Rightarrow> error + string" where
  "substitute data matched key =
     (case lookup data key of
        Inl e \<Rightarrow> Inl e
      | Inr None \<Rightarrow> Inr matched
      | Inr (Some v) \<Rightarrow> value_text v)"

text \<open>
  \<open>template.replace\<close> with the global pattern: left to right, a match is replaced and
  the scan goes on after it, any other character is copied.
\<close>

function replace_tokens :: "json \<Rightarrow> string \<Rightarrow> error + string" where
  "replace_tokens data [] = Inr []"
| "replace_tokens data (c # cs) =
     (case match_token (c # cs) of
        None \<Rightarrow>
          (case replace_tokens data cs of Inl e \<Rightarrow> Inl e | Inr out \<Rightarrow> Inr (c # out))
      | Some (key, rest) \<Rightarrow>
          (case substitute data (take (length (c # cs) - length rest) (c # cs)) key of
             Inl e \<Rightarrow> Inl e
           | Inr replacement \<Rightarrow>
               (case replace_tokens data rest of
                  Inl e \<Rightarrow> Inl e
                | Inr out \<Rightarrow> Inr (replacement @ out))))"
  by pat_completeness auto
termination
proof (relation "measure (\<lambda>(data, s). length s)", goal_cases)
  case 1
  show ?case by simp
next
  case (2 data c cs)
  show ?case by simp
next
  case (3 data c cs x key rest replacement)
  have drop_le: "length (dropWhile P xs) \<le> length xs" for P and xs :: string
    by (induction xs) auto
  from 3 obtain s1 d s2 e1 e2 where
    s: "c # cs = CHR ''{'' # CHR ''{'' # s1" and
    d: "dropWhile is_space s1 = d # s2" and
    e: "dropWhile is_space (dropWhile is_word s2) = e1 # e2 # rest"
    by (auto simp: match_token_def split: list.splits if_splits)
  have "length rest < length (dropWhile is_word s2)"
    using drop_le[of is_space "dropWhile is_word s2"] e by simp
  also have "\<dots> \<le> length s2" by (rule drop_le)
  also have "\<dots> < length s1" using drop_le[of is_space s1] d by simp
  finally show ?case using s by simp
qed

definition renderTemplate :: "string \<Rightarrow> json \<Rightarrow> error + string" where
  "renderTemplate template data = replace_tokens data template"

section \<open>Program sources: \<open>parseSource\<close> and \<open>parse\<close>\<close>

text \<open>
  \<open>MarkdownlangProgram\<close>. Its fields \<open>input\<close>, \<open>output\<close> and \<open>imports\<close> are
  \<open>inputSchema\<close>, \<open>outputSchema\<close> and \<open>importRefs\<close> here.
\<close>

record program =
  name :: string
  description :: string
  inputSchema :: json
  outputSchema :: json
  importRefs :: "string list option"
  body :: string
  sourcePath :: string

text \<open>\<open>s.indexOf("---", 3)\<close>: the first position from 3 on where the three dashes stand.\<close>

definition indexOf_dashes :: "string \<Rightarrow> nat option" where
  "indexOf_dashes s = find (\<lambda>i. take 3 (drop i s) = ''---'') [3..<length s]"

text \<open>
  An own property of the loaded frontmatter. None of \<open>name\<close>, \<open>description\<close>, \<open>input\<close>,
  \<open>output\<close> and \<open>imports\<close> is inherited from a prototype, so \<open>field in frontmatter\<close>
  and \<open>frontmatter.field\<close> see the own properties only.
\<close>

definition field :: "json \<Rightarrow> string \<Rightarrow> json option" where
  "field frontmatter f = get (entries frontmatter) f"

text \<open>\<open>Array.isArray(x) ? x.map(String) : undefined\<close>.\<close>

definition import_paths :: "json option \<Rightarrow> error + string list option" where
  "import_paths v =
     (case v of
        Some (JArr xs) \<Rightarrow>
          (case collect (map to_String xs) of Inl e \<Rightarrow> Inl e | Inr ps \<Rightarrow> Inr (Some ps))
      | _ \<Rightarrow> Inr None)"

text \<open>
  \<open>parseSource\<close>. The YAML loader is a library outside the repository and is a
  parameter: it returns a value, or \<open>None\<close> when it throws.
\<close>

definition parseSource :: "(string \<Rightarrow> json option) \<Rightarrow> string \<Rightarrow> string \<Rightarrow> error + program" where
  "parseSource yaml_load source path =
     (let trimmed = trim source in
      if take 3 trimmed \<noteq> ''---'' then Inl (MalformedProgram NoOpeningDelimiter)
      else
        (case indexOf_dashes trimmed of
           None \<Rightarrow> Inl (MalformedProgram NoClosingDelimiter)
         | Some secondDash \<Rightarrow>
             let frontmatterRaw = trim (take (secondDash - 3) (drop 3 trimmed));
                 body' = trim (drop (secondDash + 3) trimmed)
             in
             (case yaml_load frontmatterRaw of
                None \<Rightarrow> Inl (MalformedProgram YamlException)
              | Some frontmatter \<Rightarrow>
                  if \<not> truthy frontmatter \<or> \<not> typeof_object frontmatter
                  then Inl (MalformedProgram NotAnObject)
                  else
                    (case find (\<lambda>f. field frontmatter f = None)
                            [''name'', ''description'', ''input'', ''output''] of
                       Some f \<Rightarrow> Inl (MalformedProgram (MissingField f))
                     | None \<Rightarrow>
                         (case to_String (the (field frontmatter ''name'')) of
                            Inl e \<Rightarrow> Inl e
                          | Inr name' \<Rightarrow>
                              (case to_String (the (field frontmatter ''description'')) of
                                 Inl e \<Rightarrow> Inl e
                               | Inr description' \<Rightarrow>
                                   (case import_paths (field frontmatter ''imports'') of
                                      Inl e \<Rightarrow> Inl e
                                    | Inr imports' \<Rightarrow>
                                        Inr \<lparr>name = name', description = description',
                                             inputSchema = the (field frontmatter ''input''),
                                             outputSchema = the (field frontmatter ''output''),
                                             importRefs = imports', body = body',
                                             sourcePath = path\<rparr>)))))))"

text \<open>
  What a run reads from outside: the file system (\<open>path.resolve\<close>, \<open>readFileSync\<close>),
  the YAML loader, \<open>JSON.parse\<close> (\<open>None\<close> is its SyntaxError) and the completion
  client, which answers a request with the message of the first choice and moves to
  its next state.
\<close>

record tool_call =
  call_id :: string
  call_name :: string
  call_arguments :: string

record reply =
  content :: "string option"
  tool_calls :: "tool_call list option"

datatype message =
    System string
  | User string
  | Assistant reply
  | Tool string string

record tool =
  tool_name :: string
  tool_description :: string
  tool_parameters :: json

record request =
  req_model :: string
  req_messages :: "message list"
  req_schema_name :: string
  req_schema :: json
  req_tools :: "tool list option"

record 'p env =
  resolve :: "string \<Rightarrow> string"
  readFileSync :: "string \<Rightarrow> string option"
  yaml_load :: "string \<Rightarrow> json option"
  JSON_parse :: "string \<Rightarrow> json option"
  create :: "request \<Rightarrow> 'p \<Rightarrow> reply \<times> 'p"

definition parse :: "'p env \<Rightarrow> string \<Rightarrow> error + program" where
  "parse env filePath =
     (let absolutePath = resolve env filePath in
      case readFileSync env absolutePath of
        None \<Rightarrow> Inl SourceNotFound
      | Some content' \<Rightarrow> parseSource (yaml_load env) content' absolutePath)"

section \<open>The execution engine: \<open>run\<close>, \<open>resolveImportedTools\<close>, \<open>executeToolCall\<close>\<close>

text \<open>\<open>RunOptions\<close>: both fields are optional.\<close>

record options =
  model :: "string option"
  verbose :: "bool option"

definition default_options :: options where
  "default_options = \<lparr>model = None, verbose = None\<rparr>"

text \<open>
  What a run does that can be observed: the requests it sends, the lines it writes to
  the diagnostic stream (by what they report), and the runs its tool calls start, each
  with the events of its own.
\<close>

datatype diagnostic =
    DiagProgram string
  | DiagModel string
  | DiagPrompt string
  | DiagSchema json
  | DiagResult json

datatype event =
    Request request
  | Diagnostic diagnostic
  | ToolRun "event list"

text \<open>
  The outcome of a run from a state of the client: the events, the client's state
  after them, and the value returned or the exception thrown. \<open>None\<close> is a run that
  does not return, its nested runs going deeper without end.
\<close>

type_synonym 'p outcome = "(event list \<times> 'p \<times> (error + json)) option"

type_synonym 'p runner = "program \<Rightarrow> json \<Rightarrow> options \<Rightarrow> 'p \<Rightarrow> 'p outcome"

fun resolve_each :: "'p env \<Rightarrow> string list \<Rightarrow> error + tool list" where
  "resolve_each env [] = Inr []"
| "resolve_each env (importPath # rest) =
     (case parse env importPath of
        Inl e \<Rightarrow> Inl e
      | Inr imported \<Rightarrow>
          (case normalize (inputSchema imported) of
             Inl e \<Rightarrow> Inl e
           | Inr parameters \<Rightarrow>
               (case resolve_each env rest of
                  Inl e \<Rightarrow> Inl e
                | Inr tools \<Rightarrow>
                    Inr (\<lparr>tool_name = name imported,
                          tool_description = description imported,
                          tool_parameters = parameters\<rparr> # tools))))"

definition resolveImportedTools :: "'p env \<Rightarrow> program \<Rightarrow> error + tool list" where
  "resolveImportedTools env prog =
     (case importRefs prog of
        None \<Rightarrow> Inr []
      | Some paths \<Rightarrow> if length paths = 0 then Inr [] else resolve_each env paths)"

text \<open>
  \<open>executeToolCall\<close>. The run it starts is the parameter \<open>run_nested\<close>, called as the
  source calls it, with two arguments, so with the default options. An absent
  \<open>imports\<close> is falsy; an empty list of imports is not.
\<close>

fun find_import :: "'p runner \<Rightarrow> 'p env \<Rightarrow> tool_call \<Rightarrow> string list \<Rightarrow> 'p \<Rightarrow> 'p outcome" where
  "find_import run_nested env toolCall [] p = Some ([], p, Inl (UnknownTool (call_name toolCall)))"
| "find_import run_nested env toolCall (importPath # rest) p =
     (case parse env importPath of
        Inl e \<Rightarrow> Some ([], p, Inl e)
      | Inr imported \<Rightarrow>
          if name imported = call_name toolCall then
            (case JSON_parse env (call_arguments toolCall) of
               None \<Rightarrow> Some ([], p, Inl SyntaxError)
             | Some args \<Rightarrow> run_nested imported args default_options p)
          else find_import run_nested env toolCall rest p)"

definition executeToolCall :: "'p runner \<Rightarrow> 'p env \<Rightarrow> tool_call \<Rightarrow> program \<Rightarrow> 'p \<Rightarrow> 'p outcome" where
  "executeToolCall run_nested env toolCall parentProgram p =
     (case importRefs parentProgram of
        None \<Rightarrow> Some ([], p, Inl (NoImportsDeclared (call_name toolCall)))
      | Some paths \<Rightarrow> find_import run_nested env toolCall paths p)"

text \<open>
  The inner loop over the tool calls of one reply: each is executed and its result is
  pushed as a tool message; an exception ends the run. The outcome carries the
  messages in place of a value.
\<close>

fun execute_all ::
  "'p runner \<Rightarrow> 'p env \<Rightarrow> program \<Rightarrow> tool_call list \<Rightarrow> message list \<Rightarrow> event list \<Rightarrow> 'p
     \<Rightarrow> (event list \<times> 'p \<times> (error + message list)) option" where
  "execute_all run_nested env prog [] messages trace p = Some (trace, p, Inr messages)"
| "execute_all run_nested env prog (toolCall # rest) messages trace p =
     (case executeToolCall run_nested env toolCall prog p of
        None \<Rightarrow> None
      | Some (sub, p', Inl e) \<Rightarrow> Some (trace @ [ToolRun sub], p', Inl e)
      | Some (sub, p', Inr toolResult) \<Rightarrow>
          execute_all run_nested env prog rest
            (messages @ [Tool (call_id toolCall) (stringify toolResult)])
            (trace @ [ToolRun sub]) p')"

definition is_verbose :: "options \<Rightarrow> bool" where
  "is_verbose opts = (verbose opts = Some True)"

text \<open>The request of one iteration, and the test
  \<open>tool_calls && tool_calls.length > 0\<close> on the reply.\<close>

definition make_request :: "string \<Rightarrow> message list \<Rightarrow> program \<Rightarrow> json \<Rightarrow> tool list \<Rightarrow> request" where
  "make_request model' messages prog strictSchema tools =
     \<lparr>req_model = model', req_messages = messages,
      req_schema_name = name prog, req_schema = strictSchema,
      req_tools = (if length tools > 0 then Some tools else None)\<rparr>"

definition has_calls :: "reply \<Rightarrow> bool" where
  "has_calls message' = (case tool_calls message' of None \<Rightarrow> False | Some calls \<Rightarrow> length calls > 0)"

text \<open>
  The agentic loop, on the value of \<open>maxIterations\<close>. At 0 the \<open>while\<close> ends and the
  run throws. A final content that is absent or the empty string is falsy.
\<close>

fun agentic_loop ::
  "'p runner \<Rightarrow> 'p env \<Rightarrow> program \<Rightarrow> options \<Rightarrow> string \<Rightarrow> json \<Rightarrow> tool list
     \<Rightarrow> nat \<Rightarrow> message list \<Rightarrow> event list \<Rightarrow> 'p \<Rightarrow> 'p outcome" where
  "agentic_loop run_nested env prog opts model' strictSchema tools 0 messages trace p =
     Some (trace, p, Inl IterationLimitExceeded)"
| "agentic_loop run_nested env prog opts model' strictSchema tools (Suc maxIterations) messages trace p =
     (let req = make_request model' messages prog strictSchema tools;
          (message', p') = create env req p;
          trace' = trace @ [Request req]
      in
      if has_calls message' then
        (case execute_all run_nested env prog (the (tool_calls message'))
                (messages @ [Assistant message']) trace' p' of
           None \<Rightarrow> None
         | Some (trace'', p'', Inl e) \<Rightarrow> Some (trace'', p'', Inl e)
         | Some (trace'', p'', Inr messages') \<Rightarrow>
             agentic_loop run_nested env prog opts model' strictSchema tools maxIterations
               messages' trace'' p'')
      else
        (case content message' of
           None \<Rightarrow> Some (trace', p', Inl EmptyResponse)
         | Some text' \<Rightarrow>
             if text' = [] then Some (trace', p', Inl EmptyResponse)
             else
               (case JSON_parse env text' of
                  None \<Rightarrow> Some (trace', p', Inl MalformedOutput)
                | Some result \<Rightarrow>
                    Some (trace' @ (if is_verbose opts then [Diagnostic (DiagResult result)] else []),
                          p', Inr result))))"

text \<open>The system message. The dash of its last sentence, a code unit above 255 in the
  source, is a hyphen here.\<close>

definition system_prompt :: "program \<Rightarrow> string" where
  "system_prompt prog =
     join '' ''
       [''You are executing a markdownlang program called \"'' @ name prog @ ''\".'',
        description prog,
        ''Follow the instructions precisely and return the result as JSON matching the required output schema.'',
        ''Be precise and deterministic. Do not add extra commentary - just return valid JSON.'']"

definition run :: "'p runner \<Rightarrow> 'p env \<Rightarrow> program \<Rightarrow> json \<Rightarrow> options \<Rightarrow> 'p \<Rightarrow> 'p outcome" where
  "run run_nested env prog input' opts p =
     (let model' = (case model opts of None \<Rightarrow> ''gpt-4o-mini'' | Some m \<Rightarrow> m) in
      case renderTemplate (body prog) input' of
        Inl e \<Rightarrow> Some ([], p, Inl e)
      | Inr prompt \<Rightarrow>
          (case resolveImportedTools env prog of
             Inl e \<Rightarrow> Some ([], p, Inl e)
           | Inr tools \<Rightarrow>
               (case normalize (outputSchema prog) of
                  Inl e \<Rightarrow> Some ([], p, Inl e)
                | Inr strictSchema \<Rightarrow>
                    agentic_loop run_nested env prog opts model' strictSchema tools 10
                      [System (system_prompt prog), User prompt]
                      (if is_verbose opts
                       then [Diagnostic (DiagProgram (name prog)), Diagnostic (DiagModel model'),
                             Diagnostic (DiagPrompt prompt), Diagnostic (DiagSchema strictSchema)]
                       else [])
                      p)))"

text \<open>
  The recursion of \<open>run\<close> through \<open>executeToolCall\<close>, by the depth of nested runs it
  may reach: at depth 0 a run does not return.
\<close>

fun run_depth :: "nat \<Rightarrow> 'p env \<Rightarrow> 'p runner" where
  "run_depth 0 env = (\<lambda>prog input' opts p. None)"
| "run_depth (Suc d) env = run (run_depth d env) env"

text \<open>The lines of a text, in which the specification words the source format.\<close>

definition split_lines :: "string \<Rightarrow> string list" where
  "split_lines s =
     foldr (\<lambda>c ls. if c = CHR 0x0A then [] # ls else (c # hd ls) # tl ls) s [[]]"

section \<open>Observations on outcomes\<close>

fun is_request :: "event \<Rightarrow> bool" where
  "is_request (Request _) = True"
| "is_request _ = False"

text \<open>The round trips of a run's own loop: the requests among its events, those of
  nested runs lying inside the \<open>ToolRun\<close> events.\<close>

definition round_trips :: "event list \<Rightarrow> nat" where
  "round_trips trace = length (filter is_request trace)"

definition events_of :: "'p outcome \<Rightarrow> event list" where
  "events_of r = (case r of None \<Rightarrow> [] | Some (trace, p, res) \<Rightarrow> trace)"

definition result_of :: "'p outcome \<Rightarrow> (error + json) option" where
  "result_of r = (case r of None \<Rightarrow> None | Some (trace, p, res) \<Rightarrow> Some res)"

text \<open>A run with the default options: every request, at any depth, names the default
  model, and nothing is written to the diagnostic stream.\<close>

fun quiet_default :: "event \<Rightarrow> bool" where
  "quiet_default (Request req) = (req_model req = ''gpt-4o-mini'')"
| "quiet_default (Diagnostic _) = False"
| "quiet_default (ToolRun sub) = list_all quiet_default sub"

fun nested_default :: "event \<Rightarrow> bool" where
  "nested_default (ToolRun sub) = list_all quiet_default sub"
| "nested_default _ = True"

text \<open>The requests of a run's own loop, the events of the runs its tool calls started,
  and the models those runs named in their requests.\<close>

fun requests :: "event list \<Rightarrow> request list" where
  "requests [] = []"
| "requests (Request req # es) = req # requests es"
| "requests (Diagnostic d # es) = requests es"
| "requests (ToolRun sub # es) = requests es"

fun tool_runs :: "event list \<Rightarrow> event list list" where
  "tool_runs [] = []"
| "tool_runs (ToolRun sub # es) = sub # tool_runs es"
| "tool_runs (Request req # es) = tool_runs es"
| "tool_runs (Diagnostic d # es) = tool_runs es"

definition models :: "event list \<Rightarrow> string list" where
  "models trace = map req_model (requests trace)"

definition nested_models :: "event list \<Rightarrow> string list list" where
  "nested_models trace = map models (tool_runs trace)"

section \<open>An example: a parent program with one imported tool\<close>

definition child_frontmatter :: string where
  "child_frontmatter =
     ''name: child'' @ [CHR 0x0A] @ ''description: Says a word'' @ [CHR 0x0A] @
     ''input: {type: object}'' @ [CHR 0x0A] @ ''output: {type: object}''"

definition child_source :: string where
  "child_source =
     ''---'' @ [CHR 0x0A] @ child_frontmatter @ [CHR 0x0A] @ ''---'' @ [CHR 0x0A] @
     ''Say {{ .word }}'' @ [CHR 0x0A]"

definition inline_frontmatter :: string where
  "inline_frontmatter =
     ''{name: child, description: Says a word, input: {type: object}, output: {type: object}}''"

definition inline_source :: string where
  "inline_source = ''---'' @ inline_frontmatter @ ''---Say hi''"

definition child_object :: json where
  "child_object =
     JObj [(''name'', JStr ''child''), (''description'', JStr ''Says a word''),
           (''input'', JObj [(''type'', JStr ''object'')]),
           (''output'', JObj [(''type'', JStr ''object'')])]"

text \<open>A loader that knows the two frontmatter texts above, and a \<open>JSON.parse\<close> that
  knows the three texts of the example.\<close>

definition example_yaml :: "string \<Rightarrow> json option" where
  "example_yaml s =
     (if s = child_frontmatter \<or> s = inline_frontmatter then Some child_object else None)"

definition example_json :: "string \<Rightarrow> json option" where
  "example_json s =
     (if s = ''{\"word\":\"hi\"}'' then Some (JObj [(''word'', JStr ''hi'')])
      else if s = ''{\"said\":\"hi\"}'' then Some (JObj [(''said'', JStr ''hi'')])
      else if s = ''{}'' then Some (JObj [])
      else None)"

definition child_call :: tool_call where
  "child_call = \<lparr>call_id = ''call_1'', call_name = ''child'', call_arguments = ''{\"word\":\"hi\"}''\<rparr>"

definition ghost_call :: tool_call where
  "ghost_call = \<lparr>call_id = ''call_2'', call_name = ''ghost'', call_arguments = ''{}''\<rparr>"

text \<open>A client that asks for the tool whenever the program \<open>parent\<close> asks, and gives
  any other program its final answer.\<close>

definition example_create :: "request \<Rightarrow> unit \<Rightarrow> reply \<times> unit" where
  "example_create req q =
     (if req_schema_name req = ''parent''
      then (\<lparr>content = None, tool_calls = Some [child_call]\<rparr>, ())
      else (\<lparr>content = Some ''{\"said\":\"hi\"}'', tool_calls = None\<rparr>, ()))"

definition example_env :: "unit env" where
  "example_env =
     \<lparr>resolve = (\<lambda>path. path),
      readFileSync = (\<lambda>path. if path = ''child.mdlang'' then Some child_source else None),
      yaml_load = example_yaml,
      JSON_parse = example_json,
      create = example_create\<rparr>"

definition parent :: program where
  "parent =
     \<lparr>name = ''parent'', description = ''Asks the child'',
      inputSchema = JObj [(''type'', JStr ''object'')],
      outputSchema = JObj [(''type'', JStr ''object'')],
      importRefs = Some [''child.mdlang''],
      body = ''Have {{ .word }} said'', sourcePath = ''parent.mdlang''\<rparr>"

text \<open>A client that asks for a tool on every request, whatever the program.\<close>

definition insisting_env :: "unit env" where
  "insisting_env =
     example_env\<lparr>create := (\<lambda>req q. (\<lparr>content = None, tool_calls = Some [ghost_call]\<rparr>, ()))\<rparr>"

text \<open>A client whose final content is the empty string, and one that asks for the tool
  on the first request of \<open>parent\<close> only.\<close>

definition blank_env :: "unit env" where
  "blank_env = example_env\<lparr>create := (\<lambda>req q. (\<lparr>content = Some [], tool_calls = None\<rparr>, ()))\<rparr>"

definition once_env :: "unit env" where
  "once_env =
     example_env\<lparr>create := (\<lambda>req q.
        if req_schema_name req = ''parent'' \<and> length (req_messages req) = 2
        then (\<lparr>content = None, tool_calls = Some [child_call]\<rparr>, ())
        else (\<lparr>content = Some ''{\"said\":\"hi\"}'', tool_calls = None\<rparr>, ()))\<rparr>"

text \<open>A client whose final content is not JSON.\<close>

definition garbage_env :: "unit env" where
  "garbage_env = example_env\<lparr>create := (\<lambda>req q. (\<lparr>content = Some ''{bad json'', tool_calls = None\<rparr>, ()))\<rparr>"

text \<open>The parent with no \<open>imports\<close> in its frontmatter, and with an empty list of them.\<close>

definition orphan :: program where
  "orphan = parent\<lparr>importRefs := None\<rparr>"

definition childless :: program where
  "childless = parent\<lparr>importRefs := Some []\<rparr>"

text \<open>The program that \<open>child.mdlang\<close> holds, and the parent with an output schema
  whose \<open>anyOf\<close> is a string.\<close>

definition child :: program where
  "child =
     \<lparr>name = ''child'', description = ''Says a word'',
      inputSchema = JObj [(''type'', JStr ''object'')],
      outputSchema = JObj [(''type'', JStr ''object'')],
      importRefs = None, body = ''Say {{ .word }}'', sourcePath = ''child.mdlang''\<rparr>"

definition broken :: program where
  "broken = parent\<lparr>outputSchema := JObj [(''anyOf'', JStr ''x'')]\<rparr>"

text \<open>A program of another name with no imports.\<close>

definition solo :: program where
  "solo = orphan\<lparr>name := ''solo''\<rparr>"

definition verbose_options :: options where
  "verbose_options = \<lparr>model = Some ''gpt-4o'', verbose = Some True\<rparr>"

section \<open>The normaliser on values that are not schema objects\<close>

lemma show_nat_digits: "set (show_nat n) \<subseteq> digit_char ` {0..<10}"
proof (induction n rule: show_nat.induct)
  case (1 n)
  show ?case
  proof (cases "n < 10")
    case True
    then show ?thesis by (subst show_nat.simps) simp
  next
    case False
    then have "set (show_nat (n div 10)) \<subseteq> digit_char ` {0..<10}" using 1 by simp
    moreover have "n mod 10 < 10" by simp
    ultimately show ?thesis using False by (subst show_nat.simps) auto
  qed
qed

lemma show_nat_nonempty: "show_nat n \<noteq> []"
  by (subst show_nat.simps) simp

lemma digit_char_is_digit: "d < 10 \<Longrightarrow> of_char (digit_char d) = 48 + d"
  by (simp add: digit_char_def)

lemma show_nat_not_supported: "show_nat n \<notin> set supportedKeys"
proof
  assume a: "show_nat n \<in> set supportedKeys"
  have "\<forall>c \<in> set (show_nat n). (of_char c :: nat) < 58"
    using show_nat_digits[of n] by (auto simp: digit_char_def)
  moreover have "\<forall>k \<in> set supportedKeys. \<exists>c \<in> set k. (of_char c :: nat) \<ge> 58"
    by (simp add: supportedKeys_def)
  ultimately show False using a by fastforce
qed

lemma copy_supported_unsupported:
  "\<forall>kv \<in> set es. fst kv \<notin> set supportedKeys \<Longrightarrow> fold copy_step es acc = acc"
  by (induction es arbitrary: acc) (auto simp: copy_step_def)

lemma copy_supported_array: "copy_supported (entries (JArr xs)) = []"
  unfolding copy_supported_def
  by (rule copy_supported_unsupported) (auto dest!: set_zip_leftD simp: show_nat_not_supported)

lemma normalize_array: "normalize (JArr xs) = Inr (JObj [])"
  by (subst normalize.simps) (simp add: copy_supported_array get_def del: entries.simps)

text \<open>
  Claim C9, as the code has it: \<open>null\<close>, a boolean, a number and a string are returned
  unchanged by \<open>prepareSchemaForStrictMode\<close>.
\<close>

theorem normalize_scalar_unchanged:
  "normalize JNull = Inr JNull \<and> normalize (JBool b) = Inr (JBool b) \<and>
   normalize (JNum n) = Inr (JNum n) \<and> normalize (JStr s) = Inr (JStr s)"
  by (simp add: normalize.simps)

text \<open>
  Claim C9 as stated includes arrays. An array passes the guard, for \<open>typeof\<close> calls it
  an object; none of its index keys is supported, and what comes back is the empty
  object, not the array.
\<close>

theorem normalize_array_changed:
  "normalize (JArr [JNum 1, JNum 2]) = Inr (JObj []) \<and>
   normalize (JArr [JNum 1, JNum 2]) \<noteq> Inr (JArr [JNum 1, JNum 2])"
  by (simp add: normalize_array)

section \<open>The agentic loop: round trips\<close>

lemma round_trips_append: "round_trips (xs @ ys) = round_trips xs + round_trips ys"
  by (simp add: round_trips_def)

lemma execute_all_round_trips:
  "execute_all R env prog calls msgs trace p = Some (tr, p', r) \<Longrightarrow> round_trips tr = round_trips trace"
proof (induction calls arbitrary: msgs trace p)
  case Nil
  then show ?case by simp
next
  case (Cons c cs)
  show ?case
  proof (cases "executeToolCall R env c prog p")
    case None
    with Cons.prems show ?thesis by simp
  next
    case (Some o1)
    obtain sub q res where o1: "o1 = (sub, q, res)" by (cases o1)
    show ?thesis
    proof (cases res)
      case (Inl e)
      with Cons.prems Some o1 show ?thesis by (auto simp: round_trips_def)
    next
      case (Inr v)
      with Cons.prems Some o1 have
        "execute_all R env prog cs (msgs @ [Tool (call_id c) (stringify v)]) (trace @ [ToolRun sub]) q
           = Some (tr, p', r)" by simp
      from Cons.IH[OF this] show ?thesis by (simp add: round_trips_def)
    qed
  qed
qed

lemma agentic_loop_calls:
  "create env (make_request mdl msgs prog schema tools) p = (m, q) \<Longrightarrow> has_calls m \<Longrightarrow>
   agentic_loop R env prog opts mdl schema tools (Suc n) msgs trace p =
     (case execute_all R env prog (the (tool_calls m)) (msgs @ [Assistant m])
             (trace @ [Request (make_request mdl msgs prog schema tools)]) q of
        None \<Rightarrow> None
      | Some (tr, q', Inl e) \<Rightarrow> Some (tr, q', Inl e)
      | Some (tr, q', Inr msgs') \<Rightarrow> agentic_loop R env prog opts mdl schema tools n msgs' tr q')"
  by (simp add: Let_def)

lemma agentic_loop_final:
  "create env (make_request mdl msgs prog schema tools) p = (m, q) \<Longrightarrow> \<not> has_calls m \<Longrightarrow>
   agentic_loop R env prog opts mdl schema tools (Suc n) msgs trace p =
     (case content m of
        None \<Rightarrow> Some (trace @ [Request (make_request mdl msgs prog schema tools)], q, Inl EmptyResponse)
      | Some c \<Rightarrow>
          if c = [] then Some (trace @ [Request (make_request mdl msgs prog schema tools)], q, Inl EmptyResponse)
          else (case JSON_parse env c of
                  None \<Rightarrow> Some (trace @ [Request (make_request mdl msgs prog schema tools)], q, Inl MalformedOutput)
                | Some v \<Rightarrow>
                    Some (trace @ [Request (make_request mdl msgs prog schema tools)]
                            @ (if is_verbose opts then [Diagnostic (DiagResult v)] else []), q, Inr v)))"
  by (simp add: Let_def split: option.splits)

lemma agentic_loop_round_trips:
  "agentic_loop R env prog opts mdl schema tools n msgs trace p = Some (tr, p', r)
   \<Longrightarrow> round_trips tr \<le> round_trips trace + n"
proof (induction n arbitrary: msgs trace p)
  case 0
  then show ?case by simp
next
  case (Suc n)
  let ?req = "make_request mdl msgs prog schema tools"
  obtain m q where c: "create env ?req p = (m, q)" by (cases "create env ?req p")
  show ?case
  proof (cases "has_calls m")
    case True
    note step = agentic_loop_calls[OF c True, of R opts n trace]
    show ?thesis
    proof (cases "execute_all R env prog (the (tool_calls m)) (msgs @ [Assistant m]) (trace @ [Request ?req]) q")
      case None
      with Suc.prems step show ?thesis by simp
    next
      case (Some o1)
      obtain tr1 q1 res where o1: "o1 = (tr1, q1, res)" by (cases o1)
      have t1: "round_trips tr1 = round_trips trace + 1"
        using execute_all_round_trips[OF Some[unfolded o1]] by (simp add: round_trips_def)
      show ?thesis
      proof (cases res)
        case (Inl e)
        with Suc.prems step Some o1 t1 show ?thesis by auto
      next
        case (Inr msgs')
        with Suc.prems step Some o1 have
          "agentic_loop R env prog opts mdl schema tools n msgs' tr1 q1 = Some (tr, p', r)"
          by simp
        from Suc.IH[OF this] t1 show ?thesis by simp
      qed
    qed
  next
    case False
    from Suc.prems show ?thesis
      unfolding agentic_loop_final[OF c False]
      by (auto simp: round_trips_def split: option.splits if_splits)
  qed
qed


lemma execute_all_succeeds:
  assumes "\<And>tc q. tc \<in> set calls \<Longrightarrow> \<exists>sub q' v. executeToolCall R env tc prog q = Some (sub, q', Inr v)"
  shows "\<exists>tr q' msgs'. execute_all R env prog calls msgs trace p = Some (tr, q', Inr msgs')"
  using assms
proof (induction calls arbitrary: msgs trace p)
  case Nil
  show ?case by simp
next
  case (Cons c cs)
  from Cons.prems[of c p] obtain sub q v where
    e: "executeToolCall R env c prog p = Some (sub, q, Inr v)" by auto
  have "\<exists>tr q' msgs'. execute_all R env prog cs (msgs @ [Tool (call_id c) (stringify v)])
          (trace @ [ToolRun sub]) q = Some (tr, q', Inr msgs')"
    by (rule Cons.IH) (use Cons.prems in auto)
  with e show ?case by simp
qed

lemma agentic_loop_exhausts:
  assumes calls: "\<And>req q. req_schema_name req = name prog \<Longrightarrow> has_calls (fst (create env req q))"
    and tools_ok: "\<And>req q tc q'. req_schema_name req = name prog \<Longrightarrow>
          tc \<in> set (the (tool_calls (fst (create env req q)))) \<Longrightarrow>
          \<exists>sub q'' v. executeToolCall R env tc prog q' = Some (sub, q'', Inr v)"
  shows "\<exists>tr q. agentic_loop R env prog opts mdl schema tools n msgs trace p
            = Some (tr, q, Inl IterationLimitExceeded) \<and> round_trips tr = round_trips trace + n"
proof (induction n arbitrary: msgs trace p)
  case 0
  show ?case by simp
next
  case (Suc n)
  let ?req = "make_request mdl msgs prog schema tools"
  have nm: "req_schema_name ?req = name prog" by (simp add: make_request_def)
  obtain m q where c: "create env ?req p = (m, q)" by (cases "create env ?req p")
  have hc: "has_calls m" using calls[OF nm, of p] c by simp
  have "\<And>tc q'. tc \<in> set (the (tool_calls m)) \<Longrightarrow>
          \<exists>sub q'' v. executeToolCall R env tc prog q' = Some (sub, q'', Inr v)"
    using tools_ok[OF nm, of _ p] c by simp
  from execute_all_succeeds[of "the (tool_calls m)" R env prog "msgs @ [Assistant m]" "trace @ [Request ?req]" q, OF this]
  obtain tr1 q1 msgs' where
    e: "execute_all R env prog (the (tool_calls m)) (msgs @ [Assistant m]) (trace @ [Request ?req]) q
          = Some (tr1, q1, Inr msgs')" by blast
  have t1: "round_trips tr1 = round_trips trace + 1"
    using execute_all_round_trips[OF e] by (simp add: round_trips_def)
  from Suc.IH[of msgs' tr1 q1] obtain tr q' where
    "agentic_loop R env prog opts mdl schema tools n msgs' tr1 q1 = Some (tr, q', Inl IterationLimitExceeded)"
    "round_trips tr = round_trips tr1 + n" by blast
  then show ?case
    using agentic_loop_calls[OF c hc, of R opts n trace] e t1 by simp
qed

text \<open>The bound on the requests of one run, and the run against a client that always
  asks for tools that always return.\<close>

lemma run_bound_and_exhaustion:
  "(\<forall>tr q res. run R env prog inp opts p = Some (tr, q, res) \<longrightarrow> round_trips tr \<le> 10) \<and>
   ((\<exists>prompt. renderTemplate (body prog) inp = Inr prompt) \<and>
    (\<exists>tools. resolveImportedTools env prog = Inr tools) \<and>
    (\<exists>strictSchema. normalize (outputSchema prog) = Inr strictSchema) \<and>
    (\<forall>req q. req_schema_name req = name prog \<longrightarrow> has_calls (fst (create env req q))) \<and>
    (\<forall>req q tc q'. req_schema_name req = name prog \<and>
        tc \<in> set (the (tool_calls (fst (create env req q)))) \<longrightarrow>
        (\<exists>sub q'' v. executeToolCall R env tc prog q' = Some (sub, q'', Inr v)))
    \<longrightarrow> result_of (run R env prog inp opts p) = Some (Inl IterationLimitExceeded) \<and>
        round_trips (events_of (run R env prog inp opts p)) = 10)"
proof (intro conjI allI impI)
  fix tr q res
  assume r: "run R env prog inp opts p = Some (tr, q, res)"
  show "round_trips tr \<le> 10"
  proof (cases "renderTemplate (body prog) inp")
    case (Inl e)
    with r show ?thesis by (simp add: run_def round_trips_def)
  next
    case prompt: (Inr prompt)
    show ?thesis
    proof (cases "resolveImportedTools env prog")
      case (Inl e)
      with r prompt show ?thesis by (simp add: run_def round_trips_def)
    next
      case tools: (Inr tools)
      show ?thesis
      proof (cases "normalize (outputSchema prog)")
        case (Inl e)
        with r prompt tools show ?thesis by (simp add: run_def round_trips_def)
      next
        case (Inr strictSchema)
        with r prompt tools show ?thesis
          by (auto simp: run_def Let_def round_trips_def dest!: agentic_loop_round_trips
                split: if_splits)
      qed
    qed
  qed
next
  assume h: "(\<exists>prompt. renderTemplate (body prog) inp = Inr prompt) \<and>
    (\<exists>tools. resolveImportedTools env prog = Inr tools) \<and>
    (\<exists>strictSchema. normalize (outputSchema prog) = Inr strictSchema) \<and>
    (\<forall>req q. req_schema_name req = name prog \<longrightarrow> has_calls (fst (create env req q))) \<and>
    (\<forall>req q tc q'. req_schema_name req = name prog \<and>
        tc \<in> set (the (tool_calls (fst (create env req q)))) \<longrightarrow>
        (\<exists>sub q'' v. executeToolCall R env tc prog q' = Some (sub, q'', Inr v)))"
  then obtain prompt tools strictSchema where
    pr: "renderTemplate (body prog) inp = Inr prompt" and
    tl: "resolveImportedTools env prog = Inr tools" and
    sc: "normalize (outputSchema prog) = Inr strictSchema" by blast
  from h have calls: "\<And>req q. req_schema_name req = name prog \<Longrightarrow> has_calls (fst (create env req q))"
    by blast
  from h have tools_ok: "\<And>req q tc q'. req_schema_name req = name prog \<Longrightarrow>
          tc \<in> set (the (tool_calls (fst (create env req q)))) \<Longrightarrow>
          \<exists>sub q'' v. executeToolCall R env tc prog q' = Some (sub, q'', Inr v)"
    by blast
  let ?mdl = "case model opts of None \<Rightarrow> ''gpt-4o-mini'' | Some m \<Rightarrow> m"
  let ?tr0 = "if is_verbose opts
                       then [Diagnostic (DiagProgram (name prog)), Diagnostic (DiagModel ?mdl),
                             Diagnostic (DiagPrompt prompt), Diagnostic (DiagSchema strictSchema)]
                       else []"
  have "\<exists>tr q. agentic_loop R env prog opts ?mdl strictSchema tools 10
          [System (system_prompt prog), User prompt] ?tr0 p = Some (tr, q, Inl IterationLimitExceeded)
          \<and> round_trips tr = round_trips ?tr0 + 10"
  proof (rule agentic_loop_exhausts)
    show "\<And>req q. req_schema_name req = name prog \<Longrightarrow> has_calls (fst (create env req q))"
      by (rule calls)
    show "\<And>req q tc q'. req_schema_name req = name prog \<Longrightarrow>
          tc \<in> set (the (tool_calls (fst (create env req q)))) \<Longrightarrow>
          \<exists>sub q'' v. executeToolCall R env tc prog q' = Some (sub, q'', Inr v)"
      by (rule tools_ok)
  qed
  then obtain tr q where
    l: "agentic_loop R env prog opts ?mdl strictSchema tools 10
          [System (system_prompt prog), User prompt] ?tr0 p = Some (tr, q, Inl IterationLimitExceeded)"
    and n: "round_trips tr = round_trips ?tr0 + 10" by blast
  have "run R env prog inp opts p = Some (tr, q, Inl IterationLimitExceeded)"
    using pr tl sc l by (simp add: run_def Let_def)
  moreover have "round_trips ?tr0 = 0" by (simp add: round_trips_def)
  ultimately show "result_of (run R env prog inp opts p) = Some (Inl IterationLimitExceeded)"
    and "round_trips (events_of (run R env prog inp opts p)) = 10"
    using n by (simp_all add: result_of_def events_of_def)
qed


lemma execute_all_fails_at:
  assumes "execute_all R env prog pre msgs trace q = Some (tr1, q2, Inr msgs1)"
    and "executeToolCall R env c prog q2 = Some (sub, q3, Inl e)"
  shows "execute_all R env prog (pre @ c # post) msgs trace q = Some (tr1 @ [ToolRun sub], q3, Inl e)"
  using assms
proof (induction pre arbitrary: msgs trace q)
  case Nil
  then show ?case by simp
next
  case (Cons a pre)
  show ?case
  proof (cases "executeToolCall R env a prog q")
    case None
    with Cons.prems(1) show ?thesis by simp
  next
    case (Some o1)
    obtain s1 p1 r1 where o1: "o1 = (s1, p1, r1)" by (cases o1)
    show ?thesis
    proof (cases r1)
      case (Inl e')
      with Cons.prems(1) Some o1 show ?thesis by simp
    next
      case (Inr v)
      with Cons.prems(1) Some o1 have
        "execute_all R env prog pre (msgs @ [Tool (call_id a) (stringify v)]) (trace @ [ToolRun s1]) p1
           = Some (tr1, q2, Inr msgs1)" by simp
      from Cons.IH[OF this Cons.prems(2)] Some o1 Inr show ?thesis by simp
    qed
  qed
qed

lemma run_setup_fails:
  assumes "renderTemplate (body prog) inp = Inl e \<or>
       (\<exists>prompt. renderTemplate (body prog) inp = Inr prompt) \<and> resolveImportedTools env prog = Inl e \<or>
       (\<exists>prompt tools. renderTemplate (body prog) inp = Inr prompt \<and>
           resolveImportedTools env prog = Inr tools) \<and> normalize (outputSchema prog) = Inl e"
  shows "run R env prog inp opts p = Some ([], p, Inl e)"
  using assms by (auto simp: run_def Let_def)

lemma run_is_loop:
  assumes "renderTemplate (body prog) inp = Inr prompt"
    and "resolveImportedTools env prog = Inr tools"
    and "normalize (outputSchema prog) = Inr strictSchema"
  shows "run R env prog inp opts p =
     agentic_loop R env prog opts (case model opts of None \<Rightarrow> ''gpt-4o-mini'' | Some m \<Rightarrow> m)
       strictSchema tools 10 [System (system_prompt prog), User prompt]
       (if is_verbose opts
        then [Diagnostic (DiagProgram (name prog)),
              Diagnostic (DiagModel (case model opts of None \<Rightarrow> ''gpt-4o-mini'' | Some m \<Rightarrow> m)),
              Diagnostic (DiagPrompt prompt), Diagnostic (DiagSchema strictSchema)]
        else []) p"
  using assms by (simp add: run_def Let_def)

lemma agentic_loop_tool_failure:
  assumes c: "create env (make_request mdl msgs prog schema tools) q = (m, q1)"
    and t: "tool_calls m = Some (pre @ c # post)"
    and pre: "execute_all R env prog pre (msgs @ [Assistant m])
           (trace @ [Request (make_request mdl msgs prog schema tools)]) q1 = Some (tr1, q2, Inr msgs1)"
    and f: "executeToolCall R env c prog q2 = Some (sub, q3, Inl e)"
  shows "agentic_loop R env prog opts mdl schema tools (Suc n) msgs trace q
           = Some (tr1 @ [ToolRun sub], q3, Inl e)"
    and "round_trips (tr1 @ [ToolRun sub]) = round_trips trace + 1"
proof -
  have hc: "has_calls m" using t by (simp add: has_calls_def)
  have "execute_all R env prog (the (tool_calls m)) (msgs @ [Assistant m])
           (trace @ [Request (make_request mdl msgs prog schema tools)]) q1
        = Some (tr1 @ [ToolRun sub], q3, Inl e)"
    using execute_all_fails_at[OF pre f, of post] t by simp
  then show "agentic_loop R env prog opts mdl schema tools (Suc n) msgs trace q
           = Some (tr1 @ [ToolRun sub], q3, Inl e)"
    using agentic_loop_calls[OF c hc, of R opts n trace] by simp
  show "round_trips (tr1 @ [ToolRun sub]) = round_trips trace + 1"
    using execute_all_round_trips[OF pre] by (simp add: round_trips_def)
qed


subsection \<open>The example run\<close>

lemma parent_prompt: "renderTemplate (body parent) (JObj [(''word'', JStr ''hi'')]) = Inr ''Have hi said''"
  by code_simp

lemma parent_tools:
  "resolveImportedTools example_env parent =
     Inr [\<lparr>tool_name = ''child'', tool_description = ''Says a word'',
           tool_parameters = JObj [(''type'', JStr ''object'')]\<rparr>]"
  by code_simp

lemma parent_schema: "normalize (outputSchema parent) = Inr (JObj [(''type'', JStr ''object'')])"
  by code_simp

lemma child_run:
  "result_of (executeToolCall (run_depth 1 example_env) example_env child_call parent ())
     = Some (Inr (JObj [(''said'', JStr ''hi'')]))"
  by code_simp

lemma broken_setup:
  "renderTemplate (body broken) (JObj [(''word'', JStr ''hi'')]) = Inr ''Have hi said'' \<and>
   resolveImportedTools example_env broken =
     Inr [\<lparr>tool_name = ''child'', tool_description = ''Says a word'',
           tool_parameters = JObj [(''type'', JStr ''object'')]\<rparr>] \<and>
   normalize (outputSchema broken) = Inl TypeError"
  by code_simp

text \<open>
  Claim C3, as the code has it. The loop of one run sends at most 10 requests, whatever
  the client answers. A run whose prompt does not render, whose imports do not resolve
  or whose output schema does not normalise throws that exception before any request;
  any other run is the loop entered with 10 iterations left. When the run enters the
  loop, every reply to this program's requests asks for tool calls and every one of
  those tool calls returns a result, the run throws \<open>IterationLimitExceeded\<close> after
  exactly 10 requests. In any iteration, a tool call of the reply that throws, those
  before it in the reply having returned, ends the loop there with that exception: one
  request was sent in the iteration and none follows.
\<close>

theorem run_round_trips:
  "(\<forall>tr q res. run R env prog inp opts p = Some (tr, q, res) \<longrightarrow> round_trips tr \<le> 10) \<and>
   (\<forall>e. renderTemplate (body prog) inp = Inl e \<or>
        (\<exists>prompt. renderTemplate (body prog) inp = Inr prompt) \<and>
          resolveImportedTools env prog = Inl e \<or>
        (\<exists>prompt tools. renderTemplate (body prog) inp = Inr prompt \<and>
          resolveImportedTools env prog = Inr tools) \<and> normalize (outputSchema prog) = Inl e
      \<longrightarrow> run R env prog inp opts p = Some ([], p, Inl e)) \<and>
   (\<forall>prompt tools strictSchema.
      renderTemplate (body prog) inp = Inr prompt \<and> resolveImportedTools env prog = Inr tools \<and>
      normalize (outputSchema prog) = Inr strictSchema
      \<longrightarrow> run R env prog inp opts p =
          agentic_loop R env prog opts (case model opts of None \<Rightarrow> ''gpt-4o-mini'' | Some m \<Rightarrow> m)
            strictSchema tools 10 [System (system_prompt prog), User prompt]
            (if is_verbose opts
             then [Diagnostic (DiagProgram (name prog)),
                   Diagnostic (DiagModel (case model opts of None \<Rightarrow> ''gpt-4o-mini'' | Some m \<Rightarrow> m)),
                   Diagnostic (DiagPrompt prompt), Diagnostic (DiagSchema strictSchema)]
             else []) p) \<and>
   ((\<exists>prompt. renderTemplate (body prog) inp = Inr prompt) \<and>
    (\<exists>tools. resolveImportedTools env prog = Inr tools) \<and>
    (\<exists>strictSchema. normalize (outputSchema prog) = Inr strictSchema) \<and>
    (\<forall>req q. req_schema_name req = name prog \<longrightarrow> has_calls (fst (create env req q))) \<and>
    (\<forall>req q tc q'. req_schema_name req = name prog \<and>
        tc \<in> set (the (tool_calls (fst (create env req q)))) \<longrightarrow>
        (\<exists>sub q'' v. executeToolCall R env tc prog q' = Some (sub, q'', Inr v)))
    \<longrightarrow> result_of (run R env prog inp opts p) = Some (Inl IterationLimitExceeded) \<and>
        round_trips (events_of (run R env prog inp opts p)) = 10) \<and>
   (\<forall>mdl schema tools n msgs trace q m q1 pre c post tr1 q2 msgs1 sub q3 e.
      create env (make_request mdl msgs prog schema tools) q = (m, q1) \<and>
      tool_calls m = Some (pre @ c # post) \<and>
      execute_all R env prog pre (msgs @ [Assistant m])
        (trace @ [Request (make_request mdl msgs prog schema tools)]) q1 = Some (tr1, q2, Inr msgs1) \<and>
      executeToolCall R env c prog q2 = Some (sub, q3, Inl e)
      \<longrightarrow> agentic_loop R env prog opts mdl schema tools (Suc n) msgs trace q
            = Some (tr1 @ [ToolRun sub], q3, Inl e) \<and>
          round_trips (tr1 @ [ToolRun sub]) = round_trips trace + 1)"
proof (intro conjI)
  show "\<forall>tr q res. run R env prog inp opts p = Some (tr, q, res) \<longrightarrow> round_trips tr \<le> 10"
    using run_bound_and_exhaustion[of R env prog inp opts p] by blast
  show "\<forall>e. renderTemplate (body prog) inp = Inl e \<or>
        (\<exists>prompt. renderTemplate (body prog) inp = Inr prompt) \<and>
          resolveImportedTools env prog = Inl e \<or>
        (\<exists>prompt tools. renderTemplate (body prog) inp = Inr prompt \<and>
          resolveImportedTools env prog = Inr tools) \<and> normalize (outputSchema prog) = Inl e
      \<longrightarrow> run R env prog inp opts p = Some ([], p, Inl e)"
    using run_setup_fails[of prog inp _ env R opts p] by blast
  show "\<forall>prompt tools strictSchema.
      renderTemplate (body prog) inp = Inr prompt \<and> resolveImportedTools env prog = Inr tools \<and>
      normalize (outputSchema prog) = Inr strictSchema
      \<longrightarrow> run R env prog inp opts p =
          agentic_loop R env prog opts (case model opts of None \<Rightarrow> ''gpt-4o-mini'' | Some m \<Rightarrow> m)
            strictSchema tools 10 [System (system_prompt prog), User prompt]
            (if is_verbose opts
             then [Diagnostic (DiagProgram (name prog)),
                   Diagnostic (DiagModel (case model opts of None \<Rightarrow> ''gpt-4o-mini'' | Some m \<Rightarrow> m)),
                   Diagnostic (DiagPrompt prompt), Diagnostic (DiagSchema strictSchema)]
             else []) p"
    using run_is_loop[of prog inp _ env _ _ R opts p] by blast
  show "(\<exists>prompt. renderTemplate (body prog) inp = Inr prompt) \<and>
    (\<exists>tools. resolveImportedTools env prog = Inr tools) \<and>
    (\<exists>strictSchema. normalize (outputSchema prog) = Inr strictSchema) \<and>
    (\<forall>req q. req_schema_name req = name prog \<longrightarrow> has_calls (fst (create env req q))) \<and>
    (\<forall>req q tc q'. req_schema_name req = name prog \<and>
        tc \<in> set (the (tool_calls (fst (create env req q)))) \<longrightarrow>
        (\<exists>sub q'' v. executeToolCall R env tc prog q' = Some (sub, q'', Inr v)))
    \<longrightarrow> result_of (run R env prog inp opts p) = Some (Inl IterationLimitExceeded) \<and>
        round_trips (events_of (run R env prog inp opts p)) = 10"
    using run_bound_and_exhaustion[of R env prog inp opts p] by blast
  show "\<forall>mdl schema tools n msgs trace q m q1 pre c post tr1 q2 msgs1 sub q3 e.
      create env (make_request mdl msgs prog schema tools) q = (m, q1) \<and>
      tool_calls m = Some (pre @ c # post) \<and>
      execute_all R env prog pre (msgs @ [Assistant m])
        (trace @ [Request (make_request mdl msgs prog schema tools)]) q1 = Some (tr1, q2, Inr msgs1) \<and>
      executeToolCall R env c prog q2 = Some (sub, q3, Inl e)
      \<longrightarrow> agentic_loop R env prog opts mdl schema tools (Suc n) msgs trace q
            = Some (tr1 @ [ToolRun sub], q3, Inl e) \<and>
          round_trips (tr1 @ [ToolRun sub]) = round_trips trace + 1"
    by (intro allI impI conjI; elim conjE)
       (erule (3) agentic_loop_tool_failure(1), erule (3) agentic_loop_tool_failure(2))
qed


theorem run_round_trips_witness:
  "result_of (run (run_depth 1 example_env) example_env parent (JObj [(''word'', JStr ''hi'')])
              verbose_options ()) = Some (Inl IterationLimitExceeded) \<and>
   round_trips (events_of (run (run_depth 1 example_env) example_env parent
              (JObj [(''word'', JStr ''hi'')]) verbose_options ())) = 10 \<and>
   run (run_depth 1 example_env) example_env broken (JObj [(''word'', JStr ''hi'')]) verbose_options ()
     = Some ([], (), Inl TypeError) \<and>
   result_of (agentic_loop (run_depth 1 insisting_env) insisting_env orphan default_options
       ''gpt-4o-mini'' (JObj []) [] (Suc 9) [] [] ()) = Some (Inl (NoImportsDeclared ''ghost'')) \<and>
   round_trips (events_of (agentic_loop (run_depth 1 insisting_env) insisting_env orphan
       default_options ''gpt-4o-mini'' (JObj []) [] (Suc 9) [] [] ())) = 1"
proof -
  have calls: "\<forall>req q. req_schema_name req = name parent \<longrightarrow> has_calls (fst (create example_env req q))"
    by (simp add: parent_def example_env_def example_create_def has_calls_def)
  have "\<exists>sub q'' v. executeToolCall (run_depth 1 example_env) example_env child_call parent ()
          = Some (sub, q'', Inr v)"
    using child_run by (auto simp: result_of_def split: option.splits)
  then have tools_ok: "\<forall>req q tc q'. req_schema_name req = name parent \<and>
        tc \<in> set (the (tool_calls (fst (create example_env req q)))) \<longrightarrow>
        (\<exists>sub q'' v. executeToolCall (run_depth 1 example_env) example_env tc parent q'
            = Some (sub, q'', Inr v))"
    by (simp add: parent_def example_env_def example_create_def)
  have exhausted:
    "result_of (run (run_depth 1 example_env) example_env parent (JObj [(''word'', JStr ''hi'')])
              verbose_options ()) = Some (Inl IterationLimitExceeded) \<and>
     round_trips (events_of (run (run_depth 1 example_env) example_env parent
              (JObj [(''word'', JStr ''hi'')]) verbose_options ())) = 10"
    using run_round_trips[of "run_depth 1 example_env" example_env parent
        "JObj [(''word'', JStr ''hi'')]" verbose_options "()"]
      parent_prompt parent_tools parent_schema calls tools_ok
    by blast
  have early:
    "run (run_depth 1 example_env) example_env broken (JObj [(''word'', JStr ''hi'')]) verbose_options ()
       = Some ([], (), Inl TypeError)"
    by (rule run_round_trips[of "run_depth 1 example_env" example_env broken
          "JObj [(''word'', JStr ''hi'')]" verbose_options "()",
          THEN conjunct2, THEN conjunct1, rule_format])
       (use broken_setup in blast)
  let ?req = "make_request ''gpt-4o-mini'' [] orphan (JObj []) []"
  let ?m = "\<lparr>content = None, tool_calls = Some [ghost_call]\<rparr>"
  have 1: "create insisting_env ?req () = (?m, ())" by (simp add: insisting_env_def)
  have 2: "tool_calls ?m = Some ([] @ ghost_call # [])" by simp
  have 3: "execute_all (run_depth 1 insisting_env) insisting_env orphan [] ([] @ [Assistant ?m])
             ([] @ [Request ?req]) () = Some ([Request ?req], (), Inr [Assistant ?m])" by simp
  have 4: "executeToolCall (run_depth 1 insisting_env) insisting_env ghost_call orphan ()
             = Some ([], (), Inl (NoImportsDeclared ''ghost''))"
    by (simp add: executeToolCall_def orphan_def ghost_call_def)
  have failed:
    "agentic_loop (run_depth 1 insisting_env) insisting_env orphan default_options
       ''gpt-4o-mini'' (JObj []) [] (Suc 9) [] [] ()
       = Some ([Request ?req] @ [ToolRun []], (), Inl (NoImportsDeclared ''ghost'')) \<and>
     round_trips ([Request ?req] @ [ToolRun []]) = round_trips [] + 1"
    by (rule run_round_trips[of "run_depth 1 insisting_env" insisting_env orphan
          "JObj []" default_options "()",
          THEN conjunct2, THEN conjunct2, THEN conjunct2, THEN conjunct2, rule_format])
       (intro conjI, rule 1, rule 2, rule 3, rule 4)
  then have
    "result_of (agentic_loop (run_depth 1 insisting_env) insisting_env orphan default_options
       ''gpt-4o-mini'' (JObj []) [] (Suc 9) [] [] ()) = Some (Inl (NoImportsDeclared ''ghost''))"
    "round_trips (events_of (agentic_loop (run_depth 1 insisting_env) insisting_env orphan
       default_options ''gpt-4o-mini'' (JObj []) [] (Suc 9) [] [] ())) = 1"
    by (simp_all add: result_of_def events_of_def round_trips_def)
  with exhausted early show ?thesis by blast
qed

text \<open>
  Claim C3 as stated promises \<open>IterationLimitExceeded\<close> after 10 round trips against
  any client that asks for a tool call in every reply. For a program with no imports
  the first tool call throws, and the run ends after one round trip with that error.
\<close>

theorem run_stops_at_failed_tool_call:
  "result_of (run_depth 2 insisting_env orphan (JObj []) default_options ())
     = Some (Inl (NoImportsDeclared ''ghost'')) \<and>
   round_trips (events_of (run_depth 2 insisting_env orphan (JObj []) default_options ())) = 1"
  by code_simp


section \<open>Tool calls that cannot be served\<close>

lemma find_import_unknown:
  "\<forall>path \<in> set paths. \<exists>imported. parse env path = Inr imported \<and> name imported \<noteq> call_name tc
   \<Longrightarrow> find_import R env tc paths p = Some ([], p, Inl (UnknownTool (call_name tc)))"
  by (induction paths) auto

text \<open>
  Claim C7, as the code has it. A tool call for a parent whose \<open>imports\<close> is absent
  throws \<open>NoImportsDeclared\<close>. A tool call for a parent with a list of imports, empty
  or not, whose every import loads and none of which has the requested name throws
  \<open>UnknownTool\<close>. In both cases no run is started, no request is sent, and the
  exception is the outcome.
\<close>

theorem executeToolCall_errors:
  "(importRefs parentProgram = None \<longrightarrow>
      executeToolCall R env tc parentProgram p = Some ([], p, Inl (NoImportsDeclared (call_name tc)))) \<and>
   (\<forall>paths. importRefs parentProgram = Some paths \<and>
        (\<forall>path \<in> set paths. \<exists>imported. parse env path = Inr imported \<and> name imported \<noteq> call_name tc)
      \<longrightarrow> executeToolCall R env tc parentProgram p = Some ([], p, Inl (UnknownTool (call_name tc))))"
  by (auto simp: executeToolCall_def find_import_unknown)

lemma parse_child:
  "parse example_env ''child.mdlang'' =
     Inr \<lparr>name = ''child'', description = ''Says a word'',
          inputSchema = JObj [(''type'', JStr ''object'')],
          outputSchema = JObj [(''type'', JStr ''object'')],
          importRefs = None, body = ''Say {{ .word }}'', sourcePath = ''child.mdlang''\<rparr>"
  by code_simp

theorem executeToolCall_errors_witness:
  "executeToolCall (run_depth 1 example_env) example_env ghost_call orphan ()
     = Some ([], (), Inl (NoImportsDeclared ''ghost'')) \<and>
   executeToolCall (run_depth 1 example_env) example_env ghost_call parent ()
     = Some ([], (), Inl (UnknownTool ''ghost''))"
proof -
  have 1: "importRefs orphan = None" by (simp add: orphan_def)
  have 2: "importRefs parent = Some [''child.mdlang'']" by (simp add: parent_def)
  have 3: "\<forall>path \<in> set [''child.mdlang'']. \<exists>imported.
             parse example_env path = Inr imported \<and> name imported \<noteq> call_name ghost_call"
    by (simp add: parse_child ghost_call_def)
  have 4: "call_name ghost_call = ''ghost''" by (simp add: ghost_call_def)
  show ?thesis
    using executeToolCall_errors[of orphan "run_depth 1 example_env" example_env ghost_call "()"]
      executeToolCall_errors[of parent "run_depth 1 example_env" example_env ghost_call "()"]
      1 2 3 4
    by auto
qed

text \<open>
  Claim C7 as stated gives \<open>NoImportsDeclared\<close> to a parent that declares no imports at
  all. A parent whose frontmatter has \<open>imports: []\<close> declares none, and the guard
  \<open>!parentProgram.imports\<close> lets the empty list through: the scan finds nothing and
  the exception is \<open>UnknownTool\<close>.
\<close>

theorem empty_imports_unknown_tool:
  "importRefs childless = Some [] \<and>
   executeToolCall (run_depth 1 example_env) example_env ghost_call childless ()
     = Some ([], (), Inl (UnknownTool ''ghost''))"
  by (simp add: childless_def executeToolCall_def ghost_call_def)

section \<open>The final answer\<close>

text \<open>
  Claim C5, as the code has it. When the reply of an iteration carries no tool call, the
  run throws \<open>EmptyResponse\<close> if the content is absent or the empty string, throws
  \<open>MalformedOutput\<close> if \<open>JSON.parse\<close> rejects the content, and returns the parsed
  value otherwise.
\<close>

theorem final_answer:
  assumes "create env (make_request mdl msgs prog schema tools) p = (m, q)"
    and "\<not> has_calls m"
  shows "result_of (agentic_loop R env prog opts mdl schema tools (Suc n) msgs trace p) =
     Some (case content m of
             None \<Rightarrow> Inl EmptyResponse
           | Some c \<Rightarrow>
               if c = [] then Inl EmptyResponse
               else (case JSON_parse env c of None \<Rightarrow> Inl MalformedOutput | Some v \<Rightarrow> Inr v))"
  unfolding agentic_loop_final[OF assms]
  by (simp add: result_of_def split: option.splits)


theorem final_answer_witness:
  "result_of (agentic_loop (run_depth 0 example_env) example_env solo default_options
       ''gpt-4o-mini'' (JObj []) [] (Suc 9) [] [] ()) = Some (Inr (JObj [(''said'', JStr ''hi'')])) \<and>
   result_of (agentic_loop (run_depth 0 garbage_env) garbage_env parent default_options
       ''gpt-4o-mini'' (JObj []) [] (Suc 9) [] [] ()) = Some (Inl MalformedOutput)"
proof -
  have 1: "create example_env (make_request ''gpt-4o-mini'' [] solo (JObj []) []) ()
             = (\<lparr>content = Some ''{\"said\":\"hi\"}'', tool_calls = None\<rparr>, ())"
    by (simp add: example_env_def example_create_def make_request_def solo_def orphan_def parent_def)
  have 2: "create garbage_env (make_request ''gpt-4o-mini'' [] parent (JObj []) []) ()
             = (\<lparr>content = Some ''{bad json'', tool_calls = None\<rparr>, ())"
    by (simp add: garbage_env_def)
  have 3: "\<not> has_calls \<lparr>content = Some ''{\"said\":\"hi\"}'', tool_calls = None\<rparr>"
          "\<not> has_calls \<lparr>content = Some ''{bad json'', tool_calls = None\<rparr>"
    by (simp_all add: has_calls_def)
  have 4: "JSON_parse example_env ''{\"said\":\"hi\"}'' = Some (JObj [(''said'', JStr ''hi'')])"
          "JSON_parse garbage_env ''{bad json'' = None"
    by (simp_all add: example_env_def garbage_env_def example_json_def)
  show ?thesis
    using final_answer[OF 1 3(1), of "run_depth 0 example_env" default_options 9 "[]"]
          final_answer[OF 2 3(2), of "run_depth 0 garbage_env" default_options 9 "[]"] 4
    by simp
qed

text \<open>
  Claim C5 as stated gives \<open>MalformedOutput\<close> to every content that is present and is
  not JSON. The empty string is present and is not JSON, and \<open>!content\<close> is true of it:
  the run throws \<open>EmptyResponse\<close>.
\<close>

theorem empty_content_is_empty_response:
  "JSON_parse blank_env [] = None \<and>
   result_of (run_depth 1 blank_env orphan (JObj []) default_options ()) = Some (Inl EmptyResponse)"
  by code_simp


section \<open>The options of nested runs\<close>

lemma find_import_events:
  assumes R: "\<And>prog inp q tr q' res. R prog inp default_options q = Some (tr, q', res) \<Longrightarrow> list_all quiet_default tr"
  shows "find_import R env tc paths p = Some (sub, q', res) \<Longrightarrow> list_all quiet_default sub"
proof (induction paths)
  case Nil
  then show ?case by simp
next
  case (Cons path paths)
  then show ?case
    by (auto split: sum.splits if_splits option.splits dest: R)
qed

lemma executeToolCall_events:
  assumes R: "\<And>prog inp q tr q' res. R prog inp default_options q = Some (tr, q', res) \<Longrightarrow> list_all quiet_default tr"
  shows "executeToolCall R env tc prog p = Some (sub, q', res) \<Longrightarrow> list_all quiet_default sub"
  using find_import_events[of R env tc _ p sub q' res, OF R]
  by (auto simp: executeToolCall_def split: option.splits)

lemma execute_all_events:
  assumes R: "\<And>prog inp q tr q' res. R prog inp default_options q = Some (tr, q', res) \<Longrightarrow> list_all quiet_default tr"
    and Q: "\<And>sub. list_all quiet_default sub \<Longrightarrow> Q (ToolRun sub)"
  shows "execute_all R env prog calls msgs trace p = Some (tr, q, res) \<Longrightarrow> list_all Q trace \<Longrightarrow> list_all Q tr"
proof (induction calls arbitrary: msgs trace p)
  case Nil
  then show ?case by simp
next
  case (Cons c cs)
  show ?case
  proof (cases "executeToolCall R env c prog p")
    case None
    with Cons.prems show ?thesis by simp
  next
    case (Some o1)
    obtain sub q1 r1 where o1: "o1 = (sub, q1, r1)" by (cases o1)
    have s: "Q (ToolRun sub)"
      using executeToolCall_events[of R env c prog p sub q1 r1, OF R] Some o1 Q by simp
    show ?thesis
    proof (cases r1)
      case (Inl e)
      with Cons.prems Some o1 s show ?thesis by auto
    next
      case (Inr v)
      with Cons.prems Some o1 have
        "execute_all R env prog cs (msgs @ [Tool (call_id c) (stringify v)]) (trace @ [ToolRun sub]) q1
           = Some (tr, q, res)" by simp
      from Cons.IH[OF this] Cons.prems s show ?thesis by simp
    qed
  qed
qed

lemma agentic_loop_events:
  assumes R: "\<And>prog inp q tr q' res. R prog inp default_options q = Some (tr, q', res) \<Longrightarrow> list_all quiet_default tr"
    and Q: "\<And>sub. list_all quiet_default sub \<Longrightarrow> Q (ToolRun sub)"
    and Qreq: "\<And>req. req_model req = mdl \<Longrightarrow> Q (Request req)"
    and Qdiag: "\<And>d. is_verbose opts \<Longrightarrow> Q (Diagnostic d)"
  shows "agentic_loop R env prog opts mdl schema tools n msgs trace p = Some (tr, q, res)
         \<Longrightarrow> list_all Q trace \<Longrightarrow> list_all Q tr"
proof (induction n arbitrary: msgs trace p)
  case 0
  then show ?case by simp
next
  case (Suc n)
  let ?req = "make_request mdl msgs prog schema tools"
  have rq: "Q (Request ?req)" by (rule Qreq) (simp add: make_request_def)
  obtain m q0 where c: "create env ?req p = (m, q0)" by (cases "create env ?req p")
  show ?case
  proof (cases "has_calls m")
    case True
    note step = agentic_loop_calls[OF c True, of R opts n trace]
    show ?thesis
    proof (cases "execute_all R env prog (the (tool_calls m)) (msgs @ [Assistant m]) (trace @ [Request ?req]) q0")
      case None
      with Suc.prems step show ?thesis by simp
    next
      case (Some o1)
      obtain tr1 q1 r1 where o1: "o1 = (tr1, q1, r1)" by (cases o1)
      have t1: "list_all Q tr1"
        using execute_all_events[of R Q env prog _ _ _ q0 tr1 q1 r1, OF R Q Some[unfolded o1]]
          Suc.prems(2) rq by simp
      show ?thesis
      proof (cases r1)
        case (Inl e)
        with Suc.prems step Some o1 t1 show ?thesis by auto
      next
        case (Inr msgs')
        with Suc.prems step Some o1 have
          "agentic_loop R env prog opts mdl schema tools n msgs' tr1 q1 = Some (tr, q, res)"
          by simp
        from Suc.IH[OF this t1] show ?thesis .
      qed
    qed
  next
    case False
    from Suc.prems rq Qdiag show ?thesis
      unfolding agentic_loop_final[OF c False]
      by (auto split: option.splits if_splits)
  qed
qed

lemma run_events_nested:
  assumes R: "\<And>prog inp q tr q' res. R prog inp default_options q = Some (tr, q', res) \<Longrightarrow> list_all quiet_default tr"
  shows "run R env prog inp opts p = Some (tr, q, res) \<Longrightarrow> list_all nested_default tr"
  by (auto simp: run_def Let_def split: sum.splits
        elim!: agentic_loop_events[where Q = nested_default, OF R, rotated -2])

lemma run_events_default:
  assumes R: "\<And>prog inp q tr q' res. R prog inp default_options q = Some (tr, q', res) \<Longrightarrow> list_all quiet_default tr"
  shows "run R env prog inp default_options p = Some (tr, q, res) \<Longrightarrow> list_all quiet_default tr"
  by (auto simp: run_def Let_def default_options_def is_verbose_def split: sum.splits
        elim!: agentic_loop_events[where Q = quiet_default, OF R, rotated -2])

lemma run_depth_default:
  "run_depth d env prog inp default_options p = Some (tr, q, res) \<Longrightarrow> list_all quiet_default tr"
proof (induction d arbitrary: prog inp p tr q res)
  case 0
  then show ?case by simp
next
  case (Suc d)
  show ?case
    by (rule run_events_default[of "run_depth d env" env prog inp p tr q res])
       (use Suc in auto)
qed

text \<open>The runs that the tool calls of a run start write no diagnostics and name the
  default model in every request.\<close>

lemma nested_events_default:
  "run_depth d env prog inp opts p = Some (tr, q, res) \<Longrightarrow> list_all nested_default tr"
proof (cases d)
  case 0
  assume "run_depth d env prog inp opts p = Some (tr, q, res)"
  with 0 show ?thesis by simp
next
  case (Suc d')
  assume "run_depth d env prog inp opts p = Some (tr, q, res)"
  with Suc have r: "run (run_depth d' env) env prog inp opts p = Some (tr, q, res)" by simp
  show ?thesis
    by (rule run_events_nested[OF _ r]) (rule run_depth_default)
qed


lemma find_import_match:
  assumes "\<forall>x \<in> set pre. \<exists>other. parse env x = Inr other \<and> name other \<noteq> call_name tc"
    and "parse env path = Inr imported" "name imported = call_name tc"
    and "JSON_parse env (call_arguments tc) = Some args"
  shows "find_import R env tc (pre @ path # post) q = R imported args default_options q"
  using assms by (induction pre) auto

lemma executeToolCall_match:
  assumes "importRefs parentProgram = Some (pre @ path # post)"
    and "\<forall>x \<in> set pre. \<exists>other. parse env x = Inr other \<and> name other \<noteq> call_name tc"
    and "parse env path = Inr imported" "name imported = call_name tc"
    and "JSON_parse env (call_arguments tc) = Some args"
  shows "executeToolCall R env tc parentProgram q = R imported args default_options q"
  using assms by (simp add: executeToolCall_def find_import_match)

lemma execute_all_extends:
  "execute_all R env prog calls msgs trace p = Some (tr, q, res) \<Longrightarrow> \<exists>more. tr = trace @ more"
proof (induction calls arbitrary: msgs trace p)
  case Nil
  then show ?case by simp
next
  case (Cons c cs)
  show ?case
  proof (cases "executeToolCall R env c prog p")
    case None
    with Cons.prems show ?thesis by simp
  next
    case (Some o1)
    obtain sub q1 r1 where o1: "o1 = (sub, q1, r1)" by (cases o1)
    show ?thesis
    proof (cases r1)
      case (Inl e)
      with Cons.prems Some o1 show ?thesis by auto
    next
      case (Inr v)
      with Cons.prems Some o1 have
        "execute_all R env prog cs (msgs @ [Tool (call_id c) (stringify v)]) (trace @ [ToolRun sub]) q1
           = Some (tr, q, res)" by simp
      from Cons.IH[OF this] show ?thesis by auto
    qed
  qed
qed

lemma agentic_loop_extends:
  "agentic_loop R env prog opts mdl schema tools n msgs trace p = Some (tr, q, res)
   \<Longrightarrow> \<exists>more. tr = trace @ more"
proof (induction n arbitrary: msgs trace p)
  case 0
  then show ?case by simp
next
  case (Suc n)
  let ?req = "make_request mdl msgs prog schema tools"
  obtain m q0 where c: "create env ?req p = (m, q0)" by (cases "create env ?req p")
  show ?case
  proof (cases "has_calls m")
    case True
    note step = agentic_loop_calls[OF c True, of R opts n trace]
    show ?thesis
    proof (cases "execute_all R env prog (the (tool_calls m)) (msgs @ [Assistant m]) (trace @ [Request ?req]) q0")
      case None
      with Suc.prems step show ?thesis by simp
    next
      case (Some o1)
      obtain tr1 q1 r1 where o1: "o1 = (tr1, q1, r1)" by (cases o1)
      from execute_all_extends[OF Some[unfolded o1]] obtain more1 where
        t1: "tr1 = (trace @ [Request ?req]) @ more1" by blast
      show ?thesis
      proof (cases r1)
        case (Inl e)
        with Suc.prems step Some o1 t1 show ?thesis by auto
      next
        case (Inr msgs')
        with Suc.prems step Some o1 have
          "agentic_loop R env prog opts mdl schema tools n msgs' tr1 q1 = Some (tr, q, res)"
          by simp
        from Suc.IH[OF this] t1 show ?thesis by auto
      qed
    qed
  next
    case False
    from Suc.prems show ?thesis
      unfolding agentic_loop_final[OF c False]
      by (auto split: option.splits if_splits)
  qed
qed

lemma agentic_loop_first_request:
  "agentic_loop R env prog opts mdl schema tools (Suc n) msgs trace p = Some (tr, q, res)
   \<Longrightarrow> \<exists>more. tr = trace @ Request (make_request mdl msgs prog schema tools) # more"
proof -
  assume a: "agentic_loop R env prog opts mdl schema tools (Suc n) msgs trace p = Some (tr, q, res)"
  let ?req = "make_request mdl msgs prog schema tools"
  obtain m q0 where c: "create env ?req p = (m, q0)" by (cases "create env ?req p")
  show ?thesis
  proof (cases "has_calls m")
    case True
    note step = agentic_loop_calls[OF c True, of R opts n trace]
    show ?thesis
    proof (cases "execute_all R env prog (the (tool_calls m)) (msgs @ [Assistant m]) (trace @ [Request ?req]) q0")
      case None
      with a step show ?thesis by simp
    next
      case (Some o1)
      obtain tr1 q1 r1 where o1: "o1 = (tr1, q1, r1)" by (cases o1)
      from execute_all_extends[OF Some[unfolded o1]] obtain more1 where
        t1: "tr1 = (trace @ [Request ?req]) @ more1" by blast
      show ?thesis
      proof (cases r1)
        case (Inl e)
        with a step Some o1 t1 show ?thesis by auto
      next
        case (Inr msgs')
        with a step Some o1 have
          "agentic_loop R env prog opts mdl schema tools n msgs' tr1 q1 = Some (tr, q, res)"
          by simp
        from agentic_loop_extends[OF this] t1 show ?thesis by auto
      qed
    qed
  next
    case False
    from a show ?thesis
      unfolding agentic_loop_final[OF c False]
      by (auto split: option.splits if_splits)
  qed
qed

lemma execute_all_append:
  "execute_all R env prog pre msgs trace q = Some (tr1, q2, Inr msgs1) \<Longrightarrow>
   execute_all R env prog (pre @ rest) msgs trace q = execute_all R env prog rest msgs1 tr1 q2"
proof (induction pre arbitrary: msgs trace q)
  case Nil
  then show ?case by simp
next
  case (Cons a pre)
  show ?case
  proof (cases "executeToolCall R env a prog q")
    case None
    with Cons.prems show ?thesis by simp
  next
    case (Some o1)
    obtain s1 p1 r1 where o1: "o1 = (s1, p1, r1)" by (cases o1)
    show ?thesis
    proof (cases r1)
      case (Inl e')
      with Cons.prems Some o1 show ?thesis by simp
    next
      case (Inr v)
      with Cons.prems Some o1 have
        "execute_all R env prog pre (msgs @ [Tool (call_id a) (stringify v)]) (trace @ [ToolRun s1]) p1
           = Some (tr1, q2, Inr msgs1)" by simp
      from Cons.IH[OF this] Some o1 Inr show ?thesis by simp
    qed
  qed
qed

lemma agentic_loop_records_tool_run:
  assumes c: "create env (make_request mdl msgs prog schema tools) p = (m, q1)"
    and t: "tool_calls m = Some (pre @ tc # post)"
    and pre: "execute_all R env prog pre (msgs @ [Assistant m])
           (trace @ [Request (make_request mdl msgs prog schema tools)]) q1 = Some (tr1, q2, Inr msgs1)"
    and e: "executeToolCall R env tc prog q2 = Some (sub, q3, r1)"
    and a: "agentic_loop R env prog opts mdl schema tools (Suc n) msgs trace p = Some (tr, q, res)"
  shows "\<exists>more. tr = tr1 @ [ToolRun sub] @ more"
proof -
  let ?req = "make_request mdl msgs prog schema tools"
  have hc: "has_calls m" using t by (simp add: has_calls_def)
  note step = agentic_loop_calls[OF c hc, of R opts n trace]
  have all: "execute_all R env prog (the (tool_calls m)) (msgs @ [Assistant m]) (trace @ [Request ?req]) q1
           = execute_all R env prog (tc # post) msgs1 tr1 q2"
    using execute_all_append[OF pre, of "tc # post"] t by simp
  show ?thesis
  proof (cases r1)
    case (Inl err)
    with a step all e show ?thesis by simp
  next
    case (Inr v)
    show ?thesis
    proof (cases "execute_all R env prog post (msgs1 @ [Tool (call_id tc) (stringify v)])
                    (tr1 @ [ToolRun sub]) q3")
      case None
      with a step all e Inr show ?thesis by simp
    next
      case (Some o1)
      obtain tr2 q4 r4 where o1: "o1 = (tr2, q4, r4)" by (cases o1)
      from execute_all_extends[OF Some[unfolded o1]] obtain more1 where
        t1: "tr2 = (tr1 @ [ToolRun sub]) @ more1" by blast
      show ?thesis
      proof (cases r4)
        case (Inl err)
        with a step all e Inr Some o1 t1 show ?thesis by auto
      next
        case r4: (Inr msgs')
        with a step all e Inr Some o1 have
          "agentic_loop R env prog opts mdl schema tools n msgs' tr2 q4 = Some (tr, q, res)"
          by simp
        from agentic_loop_extends[OF this] t1 show ?thesis by auto
      qed
    qed
  qed
qed

lemma run_default_first_request:
  assumes "run R env prog inp default_options p = Some (tr, q, res)"
    and "renderTemplate (body prog) inp = Inr prompt"
    and "resolveImportedTools env prog = Inr tools"
    and "normalize (outputSchema prog) = Inr strictSchema"
  shows "\<exists>more. tr = Request (make_request ''gpt-4o-mini''
            [System (system_prompt prog), User prompt] prog strictSchema tools) # more"
proof -
  have "agentic_loop R env prog default_options ''gpt-4o-mini'' strictSchema tools (Suc 9)
          [System (system_prompt prog), User prompt] [] p = Some (tr, q, res)"
    using assms by (simp add: run_def Let_def default_options_def is_verbose_def)
  from agentic_loop_first_request[OF this] show ?thesis by simp
qed


lemma once_run:
  "result_of (run_depth 2 once_env parent (JObj [(''word'', JStr ''hi'')]) verbose_options ())
     = Some (Inr (JObj [(''said'', JStr ''hi'')])) \<and>
   round_trips (events_of (run_depth 2 once_env parent (JObj [(''word'', JStr ''hi'')]) verbose_options ())) = 2"
  by code_simp

lemma parse_child_once: "parse once_env ''child.mdlang'' = Inr child"
  by code_simp

lemma once_tools:
  "resolveImportedTools once_env parent =
     Inr [\<lparr>tool_name = ''child'', tool_description = ''Says a word'',
           tool_parameters = JObj [(''type'', JStr ''object'')]\<rparr>]"
  by code_simp

lemma child_default_run:
  "result_of (run_depth 1 once_env child (JObj [(''word'', JStr ''hi'')]) default_options ())
     = Some (Inr (JObj [(''said'', JStr ''hi'')])) \<and>
   models (events_of (run_depth 1 once_env child (JObj [(''word'', JStr ''hi'')]) default_options ()))
     = [''gpt-4o-mini'']"
  by code_simp

lemma child_setup:
  "renderTemplate (body child) (JObj [(''word'', JStr ''hi'')]) = Inr ''Say hi'' \<and>
   resolveImportedTools once_env child = Inr [] \<and>
   normalize (outputSchema child) = Inr (JObj [(''type'', JStr ''object'')])"
  by code_simp

lemma once_models:
  "nested_models (events_of (run_depth 2 once_env parent (JObj [(''word'', JStr ''hi'')]) verbose_options ()))
     = [[''gpt-4o-mini'']] \<and>
   models (events_of (run_depth 2 once_env parent (JObj [(''word'', JStr ''hi'')]) verbose_options ()))
     = [''gpt-4o'', ''gpt-4o'']"
  by code_simp

text \<open>
  Claim C10. A tool call that matches an import is the run of the imported program
  with the default options, whatever options the parent run has: \<open>executeToolCall\<close>
  returns what that run returns. Such a run writes nothing to the diagnostic stream,
  every request it and the runs nested in it send names the model \<open>gpt-4o-mini\<close>, and
  when the run enters its loop its first event is such a request. The parent's run
  records the events of each tool call it executes as they are, and all it records of
  nested runs is of that kind.
\<close>

theorem nested_runs_use_defaults:
  "(\<forall>tr q res. run_depth d env prog inp opts p = Some (tr, q, res) \<longrightarrow> list_all nested_default tr) \<and>
   (\<forall>tc parentProgram pre path post imported args q.
      importRefs parentProgram = Some (pre @ path # post) \<and>
      (\<forall>x \<in> set pre. \<exists>other. parse env x = Inr other \<and> name other \<noteq> call_name tc) \<and>
      parse env path = Inr imported \<and> name imported = call_name tc \<and>
      JSON_parse env (call_arguments tc) = Some args
      \<longrightarrow> executeToolCall (run_depth d env) env tc parentProgram q
            = run_depth d env imported args default_options q) \<and>
   (\<forall>imported args q tr q' res prompt tools strictSchema.
      run_depth d env imported args default_options q = Some (tr, q', res) \<and>
      renderTemplate (body imported) args = Inr prompt \<and>
      resolveImportedTools env imported = Inr tools \<and>
      normalize (outputSchema imported) = Inr strictSchema
      \<longrightarrow> list_all quiet_default tr \<and>
          (\<exists>more. tr = Request (make_request ''gpt-4o-mini''
                     [System (system_prompt imported), User prompt] imported strictSchema tools) # more)) \<and>
   (\<forall>mdl schema tools n msgs trace q m q1 pre tc post tr1 q2 msgs1 sub q3 r1 tr q4 res.
      create env (make_request mdl msgs prog schema tools) q = (m, q1) \<and>
      tool_calls m = Some (pre @ tc # post) \<and>
      execute_all (run_depth d env) env prog pre (msgs @ [Assistant m])
        (trace @ [Request (make_request mdl msgs prog schema tools)]) q1 = Some (tr1, q2, Inr msgs1) \<and>
      executeToolCall (run_depth d env) env tc prog q2 = Some (sub, q3, r1) \<and>
      agentic_loop (run_depth d env) env prog opts mdl schema tools (Suc n) msgs trace q
        = Some (tr, q4, res)
      \<longrightarrow> (\<exists>more. tr = tr1 @ [ToolRun sub] @ more))"
proof (intro conjI)
  show "\<forall>tr q res. run_depth d env prog inp opts p = Some (tr, q, res) \<longrightarrow> list_all nested_default tr"
    using nested_events_default[of d env prog inp opts p] by blast
  show "\<forall>tc parentProgram pre path post imported args q.
      importRefs parentProgram = Some (pre @ path # post) \<and>
      (\<forall>x \<in> set pre. \<exists>other. parse env x = Inr other \<and> name other \<noteq> call_name tc) \<and>
      parse env path = Inr imported \<and> name imported = call_name tc \<and>
      JSON_parse env (call_arguments tc) = Some args
      \<longrightarrow> executeToolCall (run_depth d env) env tc parentProgram q
            = run_depth d env imported args default_options q"
    by (intro allI impI; elim conjE) (erule (4) executeToolCall_match)
  show "\<forall>imported args q tr q' res prompt tools strictSchema.
      run_depth d env imported args default_options q = Some (tr, q', res) \<and>
      renderTemplate (body imported) args = Inr prompt \<and>
      resolveImportedTools env imported = Inr tools \<and>
      normalize (outputSchema imported) = Inr strictSchema
      \<longrightarrow> list_all quiet_default tr \<and>
          (\<exists>more. tr = Request (make_request ''gpt-4o-mini''
                     [System (system_prompt imported), User prompt] imported strictSchema tools) # more)"
  proof (intro allI impI, elim conjE, rule conjI)
    fix imported args q tr q' res prompt tools strictSchema
    assume r: "run_depth d env imported args default_options q = Some (tr, q', res)"
      and s: "renderTemplate (body imported) args = Inr prompt"
        "resolveImportedTools env imported = Inr tools"
        "normalize (outputSchema imported) = Inr strictSchema"
    show "list_all quiet_default tr" using r by (rule run_depth_default)
    from r obtain d' where d: "d = Suc d'" by (cases d) auto
    with r have "run (run_depth d' env) env imported args default_options q = Some (tr, q', res)"
      by simp
    from run_default_first_request[OF this s]
    show "\<exists>more. tr = Request (make_request ''gpt-4o-mini''
                     [System (system_prompt imported), User prompt] imported strictSchema tools) # more" .
  qed
  show "\<forall>mdl schema tools n msgs trace q m q1 pre tc post tr1 q2 msgs1 sub q3 r1 tr q4 res.
      create env (make_request mdl msgs prog schema tools) q = (m, q1) \<and>
      tool_calls m = Some (pre @ tc # post) \<and>
      execute_all (run_depth d env) env prog pre (msgs @ [Assistant m])
        (trace @ [Request (make_request mdl msgs prog schema tools)]) q1 = Some (tr1, q2, Inr msgs1) \<and>
      executeToolCall (run_depth d env) env tc prog q2 = Some (sub, q3, r1) \<and>
      agentic_loop (run_depth d env) env prog opts mdl schema tools (Suc n) msgs trace q
        = Some (tr, q4, res)
      \<longrightarrow> (\<exists>more. tr = tr1 @ [ToolRun sub] @ more)"
    by (intro allI impI; elim conjE) (erule (4) agentic_loop_records_tool_run)
qed


theorem nested_runs_use_defaults_witness:
  "executeToolCall (run_depth 1 once_env) once_env child_call parent ()
     = run_depth 1 once_env child (JObj [(''word'', JStr ''hi'')]) default_options () \<and>
   list_all quiet_default
     (events_of (run_depth 1 once_env child (JObj [(''word'', JStr ''hi'')]) default_options ())) \<and>
   (\<exists>more. events_of (run_depth 1 once_env child (JObj [(''word'', JStr ''hi'')]) default_options ())
      = Request (make_request ''gpt-4o-mini'' [System (system_prompt child), User ''Say hi'']
                  child (JObj [(''type'', JStr ''object'')]) []) # more) \<and>
   list_all nested_default
     (events_of (run_depth 2 once_env parent (JObj [(''word'', JStr ''hi'')]) verbose_options ())) \<and>
   (\<exists>before more.
      events_of (run_depth 2 once_env parent (JObj [(''word'', JStr ''hi'')]) verbose_options ())
        = before @
          [ToolRun (events_of (run_depth 1 once_env child (JObj [(''word'', JStr ''hi'')])
                                 default_options ()))] @ more) \<and>
   nested_models (events_of (run_depth 2 once_env parent (JObj [(''word'', JStr ''hi'')]) verbose_options ()))
     = [[''gpt-4o-mini'']] \<and>
   models (events_of (run_depth 2 once_env parent (JObj [(''word'', JStr ''hi'')]) verbose_options ()))
     = [''gpt-4o'', ''gpt-4o'']"
proof -
  let ?args = "JObj [(''word'', JStr ''hi'')]"
  let ?schema = "JObj [(''type'', JStr ''object'')]"
  let ?tools = "[\<lparr>tool_name = ''child'', tool_description = ''Says a word'',
                   tool_parameters = JObj [(''type'', JStr ''object'')]\<rparr>]"
  let ?msgs = "[System (system_prompt parent), User ''Have hi said'']"
  let ?trace = "[Diagnostic (DiagProgram (name parent)), Diagnostic (DiagModel ''gpt-4o''),
                 Diagnostic (DiagPrompt ''Have hi said''), Diagnostic (DiagSchema ?schema)]"
  let ?req = "make_request ''gpt-4o'' ?msgs parent ?schema ?tools"
  let ?m = "\<lparr>content = None, tool_calls = Some [child_call]\<rparr>"
  note T = nested_runs_use_defaults[of 1 once_env parent ?args verbose_options "()"]
  note T2 = nested_runs_use_defaults[of 2 once_env parent ?args verbose_options "()"]
  \<comment> \<open>the matched call is the run of the child with the default options\<close>
  have matched: "executeToolCall (run_depth 1 once_env) once_env child_call parent ()
     = run_depth 1 once_env child ?args default_options ()"
  proof (rule T[THEN conjunct2, THEN conjunct1, rule_format, where pre = "[]" and post = "[]"
                 and path = "''child.mdlang''"])
    show "importRefs parent = Some ([] @ ''child.mdlang'' # []) \<and>
      (\<forall>x \<in> set []. \<exists>other. parse once_env x = Inr other \<and> name other \<noteq> call_name child_call) \<and>
      parse once_env ''child.mdlang'' = Inr child \<and> name child = call_name child_call \<and>
      JSON_parse once_env (call_arguments child_call) = Some ?args"
    proof (intro conjI)
      show "importRefs parent = Some ([] @ ''child.mdlang'' # [])" by (simp add: parent_def)
      show "\<forall>x \<in> set []. \<exists>other. parse once_env x = Inr other \<and> name other \<noteq> call_name child_call"
        by simp
      show "parse once_env ''child.mdlang'' = Inr child" by (rule parse_child_once)
      show "name child = call_name child_call" by (simp add: child_def child_call_def)
      show "JSON_parse once_env (call_arguments child_call) = Some ?args"
        by (simp add: once_env_def example_env_def example_json_def child_call_def)
    qed
  qed
  \<comment> \<open>that run returns, names the default model and writes no diagnostics\<close>
  from child_default_run obtain sub q' res where
    cr: "run_depth 1 once_env child ?args default_options () = Some (sub, q', res)"
    by (auto simp: result_of_def split: option.splits)
  have "list_all quiet_default sub \<and>
          (\<exists>more. sub = Request (make_request ''gpt-4o-mini''
                     [System (system_prompt child), User ''Say hi''] child ?schema []) # more)"
  proof (rule T[THEN conjunct2, THEN conjunct2, THEN conjunct1, rule_format,
                 where imported = child and args = ?args and q = "()" and q' = q' and res = res
                   and tools = "[]"])
    show "run_depth 1 once_env child ?args default_options () = Some (sub, q', res) \<and>
      renderTemplate (body child) ?args = Inr ''Say hi'' \<and>
      resolveImportedTools once_env child = Inr [] \<and>
      normalize (outputSchema child) = Inr ?schema"
      using cr child_setup by blast
  qed
  then have child_quiet:
    "list_all quiet_default (events_of (run_depth 1 once_env child ?args default_options ()))"
    "\<exists>more. events_of (run_depth 1 once_env child ?args default_options ())
      = Request (make_request ''gpt-4o-mini'' [System (system_prompt child), User ''Say hi'']
                  child ?schema []) # more"
    using cr by (simp_all add: events_of_def)
  \<comment> \<open>the parent's run, with its own options, records it\<close>
  from once_run obtain tr q res' where
    pr: "run_depth 2 once_env parent ?args verbose_options () = Some (tr, q, res')"
    by (auto simp: result_of_def split: option.splits)
  have nested: "list_all nested_default tr"
    by (rule T2[THEN conjunct1, rule_format]) (rule pr)
  have "run (run_depth 1 once_env) once_env parent ?args verbose_options () = Some (tr, q, res')"
    using pr by (simp add: numeral_2_eq_2)
  then have loop: "agentic_loop (run_depth 1 once_env) once_env parent verbose_options ''gpt-4o''
      ?schema ?tools (Suc 9) ?msgs ?trace () = Some (tr, q, res')"
    using parent_prompt once_tools parent_schema
    by (simp add: run_def Let_def verbose_options_def is_verbose_def)
  have "\<exists>more. tr = (?trace @ [Request ?req]) @ [ToolRun sub] @ more"
  proof (rule T[THEN conjunct2, THEN conjunct2, THEN conjunct2, rule_format,
                 where pre = "[]" and post = "[]" and tc = child_call and m = ?m])
    show "create once_env ?req () = (?m, ()) \<and>
      tool_calls ?m = Some ([] @ child_call # []) \<and>
      execute_all (run_depth 1 once_env) once_env parent [] (?msgs @ [Assistant ?m])
        (?trace @ [Request ?req]) () = Some (?trace @ [Request ?req], (), Inr (?msgs @ [Assistant ?m])) \<and>
      executeToolCall (run_depth 1 once_env) once_env child_call parent () = Some (sub, q', res) \<and>
      agentic_loop (run_depth 1 once_env) once_env parent verbose_options ''gpt-4o'' ?schema ?tools
        (Suc 9) ?msgs ?trace () = Some (tr, q, res')"
      using matched cr loop by (simp add: once_env_def make_request_def parent_def)
  qed
  then obtain more where tm: "tr = (?trace @ [Request ?req]) @ [ToolRun sub] @ more" by blast
  have "events_of (run_depth 2 once_env parent ?args verbose_options ())
        = (?trace @ [Request ?req])
          @ [ToolRun (events_of (run_depth 1 once_env child ?args default_options ()))] @ more"
    unfolding pr cr using tm by (simp add: events_of_def)
  then have recorded: "\<exists>before more.
      events_of (run_depth 2 once_env parent ?args verbose_options ())
        = before @ [ToolRun (events_of (run_depth 1 once_env child ?args default_options ()))] @ more"
    by blast
  from matched child_quiet nested recorded once_models pr
  show ?thesis by (simp add: events_of_def)
qed

section \<open>Rendering\<close>

lemma substitute_own:
  "get kvs key = Some v \<Longrightarrow> substitute (JObj kvs) matched key = value_text (Json v)"
  by (simp add: substitute_def lookup_def)

lemma substitute_unbound:
  "get kvs key = None \<Longrightarrow> map_of object_prototype key = None \<Longrightarrow>
   substitute (JObj kvs) matched key = Inr matched"
  by (simp add: substitute_def lookup_def)

lemma substitute_inherited:
  "get kvs key = None \<Longrightarrow> map_of object_prototype key = Some v \<Longrightarrow>
   substitute (JObj kvs) matched key = value_text v"
  by (simp add: substitute_def lookup_def)

text \<open>The two renderings the specification gives as examples.\<close>

lemma render_bound_and_unbound:
  "renderTemplate ''{{ .x }} and {{ .y }}'' (JObj [(''x'', JNum 3)]) = Inr ''3 and {{ .y }}''"
  by code_simp

lemma render_array_value:
  "renderTemplate ''{{ .items }}'' (JObj [(''items'', JArr [JNum 1, JNum 2])]) = Inr ''[1,2]''"
  by code_simp

text \<open>
  Claim C4: a token whose identifier is not a key of the bindings is left as it stands.
  The test \<open>key in data\<close> is also true of what the object inherits: with the empty
  bindings the token \<open>{{ .toString }}\<close> is not left as it stands, it is replaced by the
  text of the built-in function.
\<close>

theorem render_inherited_key:
  "renderTemplate ''{{ .toString }}'' (JObj []) = Inr ''function toString() { [native code] }'' \<and>
   get [] ''toString'' = None"
  by code_simp


section \<open>Parsing a program source\<close>

lemma collect_Inl: "collect rs = Inl e \<Longrightarrow> Inl e \<in> set rs"
proof (induction rs)
  case Nil
  then show ?case by simp
next
  case (Cons r rs)
  then show ?case by (cases r) (auto split: sum.splits)
qed

lemma to_String_error: "to_String v = Inl e \<Longrightarrow> e = TypeError"
proof (induction v arbitrary: e)
  case (JArr xs)
  from JArr.prems have "collect (map (\<lambda>x. if x = JNull then Inr [] else to_String x) xs) = Inl e"
    by (simp split: sum.splits)
  from collect_Inl[OF this] obtain x where "x \<in> set xs" "to_String x = Inl e"
    by (auto split: if_splits)
  then show ?case using JArr.IH by blast
next
  case (JObj kvs)
  then show ?case by (simp split: if_splits)
qed simp_all

lemma import_paths_error: "import_paths v = Inl e \<Longrightarrow> e = TypeError"
proof -
  assume a: "import_paths v = Inl e"
  then obtain xs where "collect (map to_String xs) = Inl e"
    by (auto simp: import_paths_def split: option.splits json.splits sum.splits)
  from collect_Inl[OF this] obtain x where "to_String x = Inl e" by auto
  then show ?thesis by (rule to_String_error)
qed

lemma indexOf_dashes_Some:
  "indexOf_dashes s = Some i \<longleftrightarrow>
     3 \<le> i \<and> i < length s \<and> take 3 (drop i s) = ''---'' \<and>
     (\<forall>j. 3 \<le> j \<and> j < i \<longrightarrow> take 3 (drop j s) \<noteq> ''---'')"
  (is "?l \<longleftrightarrow> ?r")
proof
  let ?P = "\<lambda>i. take 3 (drop i s) = ''---''"
  assume ?l
  then obtain k where k: "k < length s - 3" "?P (3 + k)" "i = 3 + k" "\<forall>j<k. \<not> ?P (3 + j)"
    unfolding indexOf_dashes_def find_Some_iff by auto
  have "\<not> ?P j" if "3 \<le> j" "j < i" for j
  proof -
    from that k(3) have "j - 3 < k" by simp
    with k(4) have "\<not> ?P (3 + (j - 3))" by blast
    with that(1) show ?thesis by simp
  qed
  with k show ?r by auto
next
  let ?P = "\<lambda>i. take 3 (drop i s) = ''---''"
  assume r: ?r
  then have "i - 3 < length [3..<length s]" "?P ([3..<length s] ! (i - 3))"
    "i = [3..<length s] ! (i - 3)" "\<forall>j<i - 3. \<not> ?P ([3..<length s] ! j)"
    by auto
  then show ?l unfolding indexOf_dashes_def find_Some_iff by blast
qed

lemma field_array_word:
  assumes "\<exists>c \<in> set f. (of_char c :: nat) \<ge> 58"
  shows "field (JArr xs) f = None"
proof -
  have "f \<notin> set (map show_nat [0..<length xs])"
  proof
    assume "f \<in> set (map show_nat [0..<length xs])"
    then obtain n where "f = show_nat n" by auto
    moreover have "\<forall>c \<in> set (show_nat n). (of_char c :: nat) < 58"
      using show_nat_digits[of n] by (auto simp: digit_char_def)
    ultimately show False using assms by fastforce
  qed
  moreover have "fst ` set (zip (map show_nat [0..<length xs]) xs) = set (map show_nat [0..<length xs])"
    by (simp flip: set_map)
  ultimately show ?thesis by (simp add: field_def get_def map_of_eq_None_iff)
qed

lemma field_object: "field (JObj kvs) f = None \<longleftrightarrow> f \<notin> fst ` set kvs"
  by (simp add: field_def get_def map_of_eq_None_iff)


lemma mandatory_fields:
  assumes "truthy fm" "typeof_object fm"
  shows "find (\<lambda>f. field fm f = None) [''name'', ''description'', ''input'', ''output''] = None
         \<longleftrightarrow> (\<exists>kvs. fm = JObj kvs \<and>
                set [''name'', ''description'', ''input'', ''output''] \<subseteq> fst ` set kvs)"
proof (cases fm)
  case (JArr xs)
  have "field (JArr xs) ''name'' = None" by (rule field_array_word) simp
  with JArr show ?thesis by simp
next
  case (JObj kvs)
  then show ?thesis by (auto simp: field_object)
qed (use assms in auto)

lemma parseSource_after_fields:
  assumes "(case to_String a of
              Inl e \<Rightarrow> Inl e
            | Inr n \<Rightarrow> (case to_String b of
                 Inl e \<Rightarrow> Inl e
               | Inr d \<Rightarrow> (case import_paths c of
                    Inl e \<Rightarrow> Inl e
                  | Inr i \<Rightarrow> Inr (mk n d i)))) = r"
  shows "r \<noteq> Inl (MalformedProgram m)" and "r = Inr prog \<Longrightarrow> \<exists>n d i. prog = mk n d i"
  using assms
  by (auto split: sum.splits dest: to_String_error import_paths_error)

text \<open>
  Claim C6, as the code has it. \<open>parseSource\<close> rejects a source as malformed exactly
  when the trimmed source does not start with the three characters \<open>---\<close>, or no
  \<open>---\<close> occurs in it from position 3 on, or the YAML loader throws on the text between
  the two, or what it loads is not an object with the four mandatory keys. When
  \<open>parseSource\<close> returns a program, its body is the text after the second \<open>---\<close>,
  trimmed.
\<close>

theorem parseSource_outcomes:
  "((\<exists>m. parseSource yl source path = Inl (MalformedProgram m)) \<longleftrightarrow>
      (take 3 (trim source) \<noteq> ''---'' \<or>
       (case indexOf_dashes (trim source) of
          None \<Rightarrow> True
        | Some i \<Rightarrow>
            (case yl (trim (take (i - 3) (drop 3 (trim source)))) of
               None \<Rightarrow> True
             | Some (JObj kvs) \<Rightarrow>
                 \<not> set [''name'', ''description'', ''input'', ''output''] \<subseteq> fst ` set kvs
             | Some _ \<Rightarrow> True)))) \<and>
   (\<forall>prog. parseSource yl source path = Inr prog \<longrightarrow>
      (\<exists>i. indexOf_dashes (trim source) = Some i \<and>
           body prog = trim (drop (i + 3) (trim source))))"
proof (cases "take 3 (trim source) \<noteq> ''---''")
  case True
  then show ?thesis by (simp add: parseSource_def)
next
  case open_ok: False
  show ?thesis
  proof (cases "indexOf_dashes (trim source)")
    case None
    with open_ok show ?thesis by (simp add: parseSource_def)
  next
    case (Some i)
    show ?thesis
    proof (cases "yl (trim (take (i - 3) (drop 3 (trim source))))")
      case None
      with open_ok Some show ?thesis by (simp add: parseSource_def)
    next
      case fm: (Some fm)
      show ?thesis
      proof (cases "truthy fm \<and> typeof_object fm")
        case False
        then have "\<forall>kvs. fm \<noteq> JObj kvs" by auto
        then have "(case fm of JObj kvs \<Rightarrow>
                 \<not> set [''name'', ''description'', ''input'', ''output''] \<subseteq> fst ` set kvs
             | _ \<Rightarrow> True)" by (cases fm) auto
        with open_ok Some fm False show ?thesis by (auto simp: parseSource_def)
      next
        case ok: True
        show ?thesis
        proof (cases "find (\<lambda>f. field fm f = None) [''name'', ''description'', ''input'', ''output'']")
          case missing: (Some f)
          then have "\<not> (\<exists>kvs. fm = JObj kvs \<and>
                set [''name'', ''description'', ''input'', ''output''] \<subseteq> fst ` set kvs)"
            using mandatory_fields[of fm] ok by simp
          then have "(case fm of JObj kvs \<Rightarrow>
                 \<not> set [''name'', ''description'', ''input'', ''output''] \<subseteq> fst ` set kvs
             | _ \<Rightarrow> True)" by (cases fm) auto
          with open_ok Some fm ok missing show ?thesis by (auto simp: parseSource_def)
        next
          case None
          then obtain kvs where kvs: "fm = JObj kvs"
              "set [''name'', ''description'', ''input'', ''output''] \<subseteq> fst ` set kvs"
            using mandatory_fields[of fm] ok by auto
          let ?mk = "\<lambda>n d refs. \<lparr>name = n, description = d,
                 inputSchema = the (field fm ''input''), outputSchema = the (field fm ''output''),
                 importRefs = refs, body = trim (drop (i + 3) (trim source)), sourcePath = path\<rparr>"
          have r: "(case to_String (the (field fm ''name'')) of
              Inl e \<Rightarrow> Inl e
            | Inr n \<Rightarrow> (case to_String (the (field fm ''description'')) of
                 Inl e \<Rightarrow> Inl e
               | Inr d \<Rightarrow> (case import_paths (field fm ''imports'') of
                    Inl e \<Rightarrow> Inl e
                  | Inr refs \<Rightarrow> Inr (?mk n d refs)))) = parseSource yl source path"
            using open_ok Some fm ok None by (simp add: parseSource_def)
          have 1: "\<not> (\<exists>m. parseSource yl source path = Inl (MalformedProgram m))"
            using parseSource_after_fields(1)[OF r] by blast
          have 2: "\<forall>prog. parseSource yl source path = Inr prog \<longrightarrow>
                     body prog = trim (drop (i + 3) (trim source))"
            using parseSource_after_fields(2)[OF r] by auto
          from 1 2 open_ok Some fm kvs show ?thesis by simp
        qed
      qed
    qed
  qed
qed


lemma parse_child_source:
  "parseSource example_yaml child_source ''child.mdlang'' =
     Inr \<lparr>name = ''child'', description = ''Says a word'',
          inputSchema = JObj [(''type'', JStr ''object'')],
          outputSchema = JObj [(''type'', JStr ''object'')],
          importRefs = None, body = ''Say {{ .word }}'', sourcePath = ''child.mdlang''\<rparr>"
  by code_simp

theorem parseSource_outcomes_witness:
  "parseSource example_yaml child_source ''child.mdlang'' =
     Inr \<lparr>name = ''child'', description = ''Says a word'',
          inputSchema = JObj [(''type'', JStr ''object'')],
          outputSchema = JObj [(''type'', JStr ''object'')],
          importRefs = None, body = ''Say {{ .word }}'', sourcePath = ''child.mdlang''\<rparr> \<and>
   (\<exists>i. indexOf_dashes (trim child_source) = Some i \<and>
        ''Say {{ .word }}'' = trim (drop (i + 3) (trim child_source)))"
  using parseSource_outcomes[of example_yaml child_source "''child.mdlang''"] parse_child_source
  by auto

text \<open>
  Claim C6 as stated rejects a source that does not begin with a line of exactly
  \<open>---\<close> or has no closing line of exactly \<open>---\<close>. The tests are \<open>startsWith\<close> and
  \<open>indexOf\<close>, on characters: a source of one line, no line of which is \<open>---\<close>, is
  accepted.
\<close>

theorem inline_source_accepted:
  "''---'' \<notin> set (split_lines inline_source) \<and>
   parseSource example_yaml inline_source ''inline.mdlang'' =
     Inr \<lparr>name = ''child'', description = ''Says a word'',
          inputSchema = JObj [(''type'', JStr ''object'')],
          outputSchema = JObj [(''type'', JStr ''object'')],
          importRefs = None, body = ''Say hi'', sourcePath = ''inline.mdlang''\<rparr>"
  by code_simp

section \<open>The normaliser step by step\<close>

lemma normalize_steps:
  "normalize schema =
     (if \<not> truthy schema \<or> \<not> typeof_object schema then Inr schema
      else bind (properties_step normalize (copy_supported (entries schema)))
             (\<lambda>r1. bind (items_step normalize r1) (anyOf_step normalize)))"
  unfolding properties_step_def items_step_def anyOf_step_def bind_def
  by (subst normalize.simps) (simp add: Let_def)

lemma get_assign_same: "get (assign k v r) k = Some v"
  by (induction r) (auto simp: get_def)

lemma get_assign_other: "k \<noteq> k' \<Longrightarrow> get (assign k' v r) k = get r k"
  by (induction r) (auto simp: get_def)

lemma keys_assign:
  "map fst (assign k v r) = (if k \<in> set (map fst r) then map fst r else map fst r @ [k])"
  by (induction r) auto

lemma set_keys_assign: "set (map fst (assign k v r)) = insert k (set (map fst r))"
  by (auto simp: keys_assign)

lemma distinct_assign: "distinct (map fst r) \<Longrightarrow> distinct (map fst (assign k v r))"
  by (simp add: keys_assign)

lemma assign_fresh: "k \<notin> set (map fst r) \<Longrightarrow> assign k v r = r @ [(k, v)]"
  by (induction r) auto

lemma assign_same: "distinct (map fst r) \<Longrightarrow> get r k = Some v \<Longrightarrow> assign k v r = r"
proof (induction r)
  case Nil
  then show ?case by (simp add: get_def)
next
  case (Cons p r)
  then show ?case by (cases p) (auto simp: get_def split: if_splits)
qed

lemma fold_copy_step_filter:
  "fold copy_step es acc = fold copy_step (filter (\<lambda>kv. fst kv \<in> set supportedKeys) es) acc"
  by (induction es arbitrary: acc) (auto simp: copy_step_def)

lemma fold_assign_append:
  "distinct (map fst (acc @ es)) \<Longrightarrow>
   fold (\<lambda>kv acc. assign (fst kv) (snd kv) acc) es acc = acc @ es"
proof (induction es arbitrary: acc)
  case Nil
  show ?case by simp
next
  case (Cons e es)
  have "assign (fst e) (snd e) acc = acc @ [e]"
    using Cons.prems by (simp add: assign_fresh)
  moreover have "distinct (map fst ((acc @ [e]) @ es))" using Cons.prems by simp
  ultimately show ?case using Cons.IH[of "acc @ [e]"] by simp
qed

lemma fold_build_step:
  "''__proto__'' \<notin> set (map fst es) \<Longrightarrow>
   fold build_step es acc = fold (\<lambda>kv acc. assign (fst kv) (snd kv) acc) es acc"
  by (induction es arbitrary: acc) (auto simp: build_step_def)

lemma build_object_distinct:
  "distinct (map fst es) \<Longrightarrow> ''__proto__'' \<notin> set (map fst es) \<Longrightarrow> build_object es = es"
  using fold_assign_append[of "[]" es] by (simp add: build_object_def fold_build_step)

lemma fold_copy_step_supported:
  "\<forall>kv \<in> set es. fst kv \<in> set supportedKeys \<Longrightarrow>
   fold copy_step es acc = fold (\<lambda>kv acc. assign (fst kv) (snd kv) acc) es acc"
  by (induction es arbitrary: acc) (auto simp: copy_step_def)

lemma copy_supported_distinct:
  assumes "distinct (map fst es)"
  shows "copy_supported es = filter (\<lambda>kv. fst kv \<in> set supportedKeys) es"
proof -
  let ?fs = "filter (\<lambda>kv. fst kv \<in> set supportedKeys) es"
  have "distinct (map fst ?fs)" using assms by (simp add: distinct_map_filter)
  then have "fold (\<lambda>kv acc. assign (fst kv) (snd kv) acc) ?fs [] = ?fs"
    using fold_assign_append[of "[]" ?fs] by simp
  moreover have "fold copy_step ?fs [] = fold (\<lambda>kv acc. assign (fst kv) (snd kv) acc) ?fs []"
    by (rule fold_copy_step_supported) simp
  ultimately show ?thesis
    unfolding copy_supported_def by (subst fold_copy_step_filter) simp
qed

lemma copy_supported_fixed:
  "distinct (map fst r) \<Longrightarrow> set (map fst r) \<subseteq> set supportedKeys \<Longrightarrow> copy_supported r = r"
  by (simp add: copy_supported_distinct filter_id_conv subset_iff)

lemma fold_copy_step_keys:
  "set (map fst (fold copy_step es acc)) \<subseteq> set (map fst acc) \<union> set supportedKeys"
proof (induction es arbitrary: acc)
  case Nil
  show ?case by simp
next
  case (Cons e es)
  have "set (map fst (copy_step e acc)) \<subseteq> set (map fst acc) \<union> set supportedKeys"
    by (auto simp: copy_step_def set_keys_assign simp del: set_map)
  with Cons[of "copy_step e acc"] show ?case by auto
qed

lemma copy_supported_keys: "set (map fst (copy_supported es)) \<subseteq> set supportedKeys"
  using fold_copy_step_keys[of es "[]"] by (simp add: copy_supported_def)

lemma fold_copy_step_keys_distinct:
  "distinct (map fst acc) \<Longrightarrow> distinct (map fst (fold copy_step es acc))"
proof (induction es arbitrary: acc)
  case Nil
  then show ?case by simp
next
  case (Cons e es)
  have "distinct (map fst (copy_step e acc))"
    using Cons.prems by (simp add: copy_step_def distinct_assign)
  from Cons.IH[OF this] show ?case by simp
qed

lemma copy_supported_keys_distinct: "distinct (map fst (copy_supported es))"
  using fold_copy_step_keys_distinct[of "[]" es] by (simp add: copy_supported_def)

lemma copy_supported_filter:
  "copy_supported es = copy_supported (filter (\<lambda>kv. fst kv \<in> set supportedKeys) es)"
  unfolding copy_supported_def by (rule fold_copy_step_filter)


lemma bind_Inr: "bind m f = Inr y \<longleftrightarrow> (\<exists>x. m = Inr x \<and> f x = Inr y)"
  by (cases m) (simp_all add: bind_def)

lemma normalize_chain:
  assumes "truthy s" "typeof_object s" "normalize s = Inr r"
  obtains r1 r2 where
    "properties_step normalize (copy_supported (entries s)) = Inr r1"
    "items_step normalize r1 = Inr r2"
    "anyOf_step normalize r2 = Inr r"
proof -
  have "bind (properties_step normalize (copy_supported (entries s)))
             (\<lambda>r1. bind (items_step normalize r1) (anyOf_step normalize)) = Inr r"
    using assms normalize_steps[of s] by simp
  then show ?thesis using that unfolding bind_Inr by blast
qed

lemma properties_step_cases:
  assumes "properties_step f r = Inr r'"
  obtains (unchanged) "r' = r"
      "\<not> (\<exists>props. get r ''properties'' = Some props \<and> get r ''type'' = Some (JStr ''object'') \<and> truthy props)"
    | (rewritten) props newProps where
      "get r ''properties'' = Some props" "get r ''type'' = Some (JStr ''object'')" "truthy props"
      "collect (map (\<lambda>(key, v). map_sum id (Pair key) (f v)) (entries props)) = Inr newProps"
      "r' = assign ''properties'' (JObj (build_object newProps))
              (assign ''additionalProperties'' (JBool False)
                (assign ''required'' (JArr (map JStr (keys props))) r))"
proof (cases "get r ''properties''")
  case None
  with assms unchanged show ?thesis by (simp add: properties_step_def)
next
  case (Some props)
  show ?thesis
  proof (cases "get r ''type'' = Some (JStr ''object'') \<and> truthy props")
    case False
    with assms Some unchanged show ?thesis by (simp add: properties_step_def)
  next
    case True
    show ?thesis
    proof (cases "collect (map (\<lambda>(key, v). map_sum id (Pair key) (f v)) (entries props))")
      case (Inl e)
      with assms Some True show ?thesis by (simp add: properties_step_def)
    next
      case (Inr newProps)
      with assms Some True rewritten[of props newProps] show ?thesis
        by (simp add: properties_step_def)
    qed
  qed
qed

lemma items_step_cases:
  assumes "items_step f r = Inr r'"
  obtains (unchanged) "r' = r"
      "\<not> (\<exists>items. get r ''items'' = Some items \<and> get r ''type'' = Some (JStr ''array'') \<and> truthy items)"
    | (rewritten) items items' where
      "get r ''items'' = Some items" "get r ''type'' = Some (JStr ''array'')" "truthy items"
      "f items = Inr items'" "r' = assign ''items'' items' r"
proof (cases "get r ''items''")
  case None
  with assms unchanged show ?thesis by (simp add: items_step_def)
next
  case (Some items)
  show ?thesis
  proof (cases "get r ''type'' = Some (JStr ''array'') \<and> truthy items")
    case False
    with assms Some unchanged show ?thesis by (simp add: items_step_def)
  next
    case True
    show ?thesis
    proof (cases "f items")
      case (Inl e)
      with assms Some True show ?thesis by (simp add: items_step_def)
    next
      case (Inr items')
      with assms Some True rewritten[of items items'] show ?thesis
        by (simp add: items_step_def)
    qed
  qed
qed

lemma anyOf_step_cases:
  assumes "anyOf_step f r = Inr j"
  obtains (unchanged) "j = JObj r"
      "\<not> (\<exists>anyOf. get r ''anyOf'' = Some anyOf \<and> truthy anyOf)"
    | (rewritten) branches branches' where
      "get r ''anyOf'' = Some (JArr branches)"
      "collect (map f branches) = Inr branches'"
      "j = JObj (assign ''anyOf'' (JArr branches') r)"
proof (cases "get r ''anyOf''")
  case None
  with assms unchanged show ?thesis by (simp add: anyOf_step_def)
next
  case (Some anyOf)
  show ?thesis
  proof (cases "truthy anyOf")
    case False
    with assms Some unchanged show ?thesis by (simp add: anyOf_step_def)
  next
    case True
    show ?thesis
    proof (cases anyOf)
      case (JArr branches)
      show ?thesis
      proof (cases "collect (map f branches)")
        case (Inl e)
        with assms Some True JArr show ?thesis by (simp add: anyOf_step_def)
      next
        case (Inr branches')
        with assms Some True JArr rewritten[of branches branches'] show ?thesis
          by (simp add: anyOf_step_def)
      qed
    qed (use assms Some True in \<open>simp_all add: anyOf_step_def\<close>)
  qed
qed

lemma properties_step_keys:
  assumes "properties_step f r = Inr r'"
  shows "set (map fst r') \<subseteq> set (map fst r) \<union> {''properties'', ''additionalProperties'', ''required''}"
    and "distinct (map fst r) \<Longrightarrow> distinct (map fst r')"
    and "k \<notin> {''properties'', ''additionalProperties'', ''required''} \<Longrightarrow> get r' k = get r k"
proof -
  show "set (map fst r') \<subseteq> set (map fst r) \<union> {''properties'', ''additionalProperties'', ''required''}"
    using assms
  proof (cases rule: properties_step_cases)
    case unchanged
    then show ?thesis by blast
  next
    case (rewritten props newProps)
    show ?thesis unfolding rewritten(5) set_keys_assign by blast
  qed
  show "distinct (map fst r) \<Longrightarrow> distinct (map fst r')"
    using assms by (cases rule: properties_step_cases) (simp_all add: distinct_assign)
  show "k \<notin> {''properties'', ''additionalProperties'', ''required''} \<Longrightarrow> get r' k = get r k"
    using assms by (cases rule: properties_step_cases) (simp_all add: get_assign_other)
qed

lemma items_step_keys:
  assumes "items_step f r = Inr r'"
  shows "set (map fst r') \<subseteq> set (map fst r) \<union> {''items''}"
    and "distinct (map fst r) \<Longrightarrow> distinct (map fst r')"
    and "k \<noteq> ''items'' \<Longrightarrow> get r' k = get r k"
proof -
  show "set (map fst r') \<subseteq> set (map fst r) \<union> {''items''}"
    using assms
  proof (cases rule: items_step_cases)
    case unchanged
    then show ?thesis by blast
  next
    case (rewritten items items')
    show ?thesis unfolding rewritten(5) set_keys_assign by blast
  qed
  show "distinct (map fst r) \<Longrightarrow> distinct (map fst r')"
    using assms by (cases rule: items_step_cases) (simp_all add: distinct_assign)
  show "k \<noteq> ''items'' \<Longrightarrow> get r' k = get r k"
    using assms by (cases rule: items_step_cases) (simp_all add: get_assign_other)
qed

lemma anyOf_step_keys:
  assumes "anyOf_step f r = Inr j"
  shows "\<exists>r'. j = JObj r' \<and> set (map fst r') \<subseteq> set (map fst r) \<union> {''anyOf''} \<and>
           (distinct (map fst r) \<longrightarrow> distinct (map fst r')) \<and>
           (\<forall>k. k \<noteq> ''anyOf'' \<longrightarrow> get r' k = get r k)"
  using assms
proof (cases rule: anyOf_step_cases)
  case unchanged
  then show ?thesis by auto
next
  case (rewritten branches branches')
  have "set (map fst (assign ''anyOf'' (JArr branches') r)) \<subseteq> set (map fst r) \<union> {''anyOf''}"
    unfolding set_keys_assign by blast
  then show ?thesis using rewritten(3) by (simp add: distinct_assign get_assign_other del: set_map)
qed

lemma normalize_object_keys:
  assumes "truthy s" "typeof_object s" "normalize s = Inr r"
  shows "\<exists>kvs'. r = JObj kvs' \<and> set (map fst kvs') \<subseteq> set supportedKeys \<and> distinct (map fst kvs')"
proof -
  from assms obtain r1 r2 where
    1: "properties_step normalize (copy_supported (entries s)) = Inr r1" and
    2: "items_step normalize r1 = Inr r2" and
    3: "anyOf_step normalize r2 = Inr r"
    by (rule normalize_chain)
  from anyOf_step_keys[OF 3] obtain r3 where r: "r = JObj r3" and
    k3: "set (map fst r3) \<subseteq> set (map fst r2) \<union> {''anyOf''}" and
    d3: "distinct (map fst r2) \<longrightarrow> distinct (map fst r3)"
    by blast
  have s: "{''properties'', ''additionalProperties'', ''required'', ''items'', ''anyOf''} \<subseteq> set supportedKeys"
    by (simp add: supportedKeys_def)
  have "set (map fst r3) \<subseteq> set supportedKeys"
    using k3 items_step_keys(1)[OF 2] properties_step_keys(1)[OF 1]
      copy_supported_keys[of "entries s"] s by blast
  moreover have "distinct (map fst r3)"
    using d3 items_step_keys(2)[OF 2] properties_step_keys(2)[OF 1]
      copy_supported_keys_distinct[of "entries s"] by blast
  ultimately show ?thesis using r by blast
qed

lemma normalize_ignores_unsupported:
  "normalize (JObj kvs) = normalize (JObj (filter (\<lambda>kv. fst kv \<in> set supportedKeys) kvs))"
proof -
  have "copy_supported (entries (JObj (filter (\<lambda>kv. fst kv \<in> set supportedKeys) kvs)))
          = copy_supported (entries (JObj kvs))"
    using copy_supported_filter[of kvs] by simp
  then show ?thesis
    by (simp add: normalize_steps[of "JObj kvs"]
          normalize_steps[of "JObj (filter (\<lambda>kv. fst kv \<in> set supportedKeys) kvs)"]
          del: entries.simps)
qed

text \<open>
  Claim C8. The object \<open>prepareSchemaForStrictMode\<close> returns for a schema has no key
  outside the allow-list. The other keys of the schema are dropped without a trace:
  the outcome, value or exception, is that of the schema without them.
\<close>

theorem normalize_allow_list:
  "(\<forall>r. normalize (JObj kvs) = Inr r \<longrightarrow>
       (\<exists>kvs'. r = JObj kvs' \<and> set (map fst kvs') \<subseteq> set supportedKeys)) \<and>
   normalize (JObj kvs) = normalize (JObj (filter (\<lambda>kv. fst kv \<in> set supportedKeys) kvs))"
proof (intro conjI allI impI)
  fix r
  assume "normalize (JObj kvs) = Inr r"
  then show "\<exists>kvs'. r = JObj kvs' \<and> set (map fst kvs') \<subseteq> set supportedKeys"
    using normalize_object_keys[of "JObj kvs" r] by auto
next
  show "normalize (JObj kvs) = normalize (JObj (filter (\<lambda>kv. fst kv \<in> set supportedKeys) kvs))"
    by (rule normalize_ignores_unsupported)
qed


lemma constrained_string_schema:
  "normalize (JObj [(''type'', JStr ''string''), (''minimum'', JNum 3), (''pattern'', JStr ''x'')])
     = Inr (JObj [(''type'', JStr ''string'')])"
  by code_simp

theorem normalize_allow_list_witness:
  "normalize (JObj [(''type'', JStr ''string''), (''minimum'', JNum 3), (''pattern'', JStr ''x'')])
     = Inr (JObj [(''type'', JStr ''string'')]) \<and>
   (\<exists>kvs'. JObj [(''type'', JStr ''string'')] = JObj kvs' \<and>
      set (map fst kvs') \<subseteq> set supportedKeys)"
  using normalize_allow_list[of "[(''type'', JStr ''string''), (''minimum'', JNum 3), (''pattern'', JStr ''x'')]"]
    constrained_string_schema
  by blast

section \<open>Object schemas\<close>

lemma collect_Inr: "collect rs = Inr xs \<longleftrightarrow> rs = map Inr xs"
proof (induction rs arbitrary: xs)
  case Nil
  show ?case by auto
next
  case (Cons r rs)
  show ?case
  proof (cases r)
    case (Inl e)
    then show ?thesis by auto
  next
    case (Inr x)
    then show ?thesis using Cons[of "tl xs"] by (cases xs) (auto split: sum.splits)
  qed
qed

lemma collect_map_Inr: "collect (map f xs) = Inr ys \<longleftrightarrow> map f xs = map Inr ys"
  by (rule collect_Inr)

lemma collect_properties:
  "collect (map (\<lambda>(key, v). map_sum id (Pair key) (f v)) es) = Inr newProps \<longleftrightarrow>
     map fst newProps = map fst es \<and> map (f \<circ> snd) es = map (Inr \<circ> snd) newProps"
proof (induction es arbitrary: newProps)
  case Nil
  show ?case by auto
next
  case (Cons e es)
  obtain k v where e: "e = (k, v)" by (cases e)
  show ?case
  proof (cases "f v")
    case (Inl err)
    then show ?thesis by (cases newProps) (auto simp: e)
  next
    case (Inr v')
    show ?thesis
    proof (cases newProps)
      case Nil
      then show ?thesis by (auto simp: e Inr split: sum.splits)
    next
      case (Cons n ns)
      obtain k' w where n: "n = (k', w)" by (cases n)
      show ?thesis using Cons.IH[of ns] by (auto simp: e Inr Cons n split: sum.splits)
    qed
  qed
qed

lemma get_filter_supported:
  "k \<in> set supportedKeys \<Longrightarrow> get (filter (\<lambda>kv. fst kv \<in> set supportedKeys) kvs) k = get kvs k"
  by (induction kvs) (auto simp: get_def)

lemma get_copy_supported:
  "distinct (map fst kvs) \<Longrightarrow> k \<in> set supportedKeys \<Longrightarrow> get (copy_supported kvs) k = get kvs k"
  by (simp add: copy_supported_distinct get_filter_supported)


lemma size_object_value: "(k, v) \<in> set kvs \<Longrightarrow> size v < size (JObj kvs)"
proof -
  assume "(k, v) \<in> set kvs"
  then have "size_prod (\<lambda>_. 0) size (k, v) \<le> size_list (size_prod (\<lambda>_. 0) size) kvs"
    by (simp add: size_list_estimation')
  then show ?thesis by simp
qed

lemma size_array_element: "x \<in> set xs \<Longrightarrow> size x < size (JArr xs)"
proof -
  assume "x \<in> set xs"
  then have "size x \<le> size_list size xs" by (simp add: size_list_estimation')
  then show ?thesis by simp
qed

lemma get_mem: "get kvs k = Some v \<Longrightarrow> (k, v) \<in> set kvs"
  by (simp add: get_def map_of_SomeD)

lemma fields_typed_mem:
  "fields_typed kvs \<Longrightarrow> (k, v) \<in> set kvs \<Longrightarrow>
     (k = ''properties'' \<longrightarrow> (\<exists>ps. v = JObj ps \<and> distinct (map fst ps) \<and> properties_typed ps)) \<and>
     (k = ''items'' \<longrightarrow> schema_typed v) \<and>
     (k = ''anyOf'' \<longrightarrow> (\<exists>branches. v = JArr branches \<and> branches_typed branches))"
proof (induction kvs)
  case Nil
  then show ?case by simp
next
  case (Cons kv kvs)
  show ?case
  proof (cases "(k, v) = kv")
    case True
    with Cons.prems(1) show ?thesis
      by (auto split: json.splits if_splits)
  next
    case False
    with Cons show ?thesis by simp
  qed
qed

lemma properties_typed_mem: "properties_typed ps \<Longrightarrow> (k, v) \<in> set ps \<Longrightarrow> schema_typed v"
  by (induction ps) auto

lemma branches_typed_mem: "branches_typed xs \<Longrightarrow> x \<in> set xs \<Longrightarrow> schema_typed x"
  by (induction xs) auto

lemma collect_total: "\<forall>r \<in> set rs. \<exists>x. r = Inr x \<Longrightarrow> \<exists>xs. collect rs = Inr xs"
proof (induction rs)
  case Nil
  show ?case by simp
next
  case (Cons r rs)
  then obtain x xs where "r = Inr x" "collect rs = Inr xs" by auto
  then show ?case by simp
qed

lemma schema_typed_object:
  assumes "schema_typed s"
  obtains kvs where "s = JObj kvs" "distinct (map fst kvs)" "fields_typed kvs"
  using assms by (cases s) auto

lemma normalize_chainI:
  assumes "truthy s" "typeof_object s"
    "properties_step normalize (copy_supported (entries s)) = Inr r1"
    "items_step normalize r1 = Inr r2"
  shows "normalize s = anyOf_step normalize r2"
  using assms by (subst normalize_steps) (simp add: bind_def)

lemma normalize_total: "schema_typed s \<Longrightarrow> \<exists>r. normalize s = Inr r"
proof (induction s rule: measure_induct_rule[of size])
  case (less s)
  from less.prems obtain kvs where s: "s = JObj kvs" and d: "distinct (map fst kvs)"
    and ft: "fields_typed kvs" by (rule schema_typed_object)
  let ?r0 = "copy_supported (entries s)"
  have g0: "get ?r0 k = get kvs k" if "k \<in> set supportedKeys" for k
    using that d by (simp add: s get_copy_supported)
  have sk: "''properties'' \<in> set supportedKeys" "''items'' \<in> set supportedKeys"
    "''anyOf'' \<in> set supportedKeys" "''type'' \<in> set supportedKeys"
    by (simp_all add: supportedKeys_def)
  have sub: "\<exists>r. normalize v = Inr r" if "schema_typed v" "size v < size s" for v
    using less.IH[of v] that by simp
  \<comment> \<open>the first step\<close>
  have "\<exists>r1. properties_step normalize ?r0 = Inr r1"
  proof (cases "get ?r0 ''properties''")
    case None
    then show ?thesis by (simp add: properties_step_def)
  next
    case (Some props)
    then have m: "(''properties'', props) \<in> set kvs" using g0[OF sk(1)] by (simp add: get_mem)
    with ft obtain ps where ps: "props = JObj ps" "properties_typed ps"
      using fields_typed_mem[of kvs "''properties''" props] by auto
    have "\<forall>r \<in> set (map (\<lambda>(key, v). map_sum id (Pair key) (normalize v)) (entries props)).
            \<exists>x. r = Inr x"
    proof
      fix r
      assume "r \<in> set (map (\<lambda>(key, v). map_sum id (Pair key) (normalize v)) (entries props))"
      then obtain key v where kv: "(key, v) \<in> set ps" and r: "r = map_sum id (Pair key) (normalize v)"
        using ps(1) by auto
      have "size v < size props" using size_object_value[OF kv] ps(1) by simp
      moreover have "size props < size s" using size_object_value[OF m] s by simp
      ultimately obtain v' where "normalize v = Inr v'"
        using sub[of v] properties_typed_mem[OF ps(2) kv] by auto
      with r show "\<exists>x. r = Inr x" by simp
    qed
    from collect_total[OF this] obtain newProps where
      "collect (map (\<lambda>(key, v). map_sum id (Pair key) (normalize v)) (entries props)) = Inr newProps"
      by blast
    with Some show ?thesis by (simp add: properties_step_def)
  qed
  then obtain r1 where r1: "properties_step normalize ?r0 = Inr r1" by blast
  have g1: "get r1 ''items'' = get kvs ''items''" "get r1 ''anyOf'' = get kvs ''anyOf''"
    using properties_step_keys(3)[OF r1] g0 sk by simp_all
  \<comment> \<open>the second step\<close>
  have "\<exists>r2. items_step normalize r1 = Inr r2"
  proof (cases "get r1 ''items''")
    case None
    then show ?thesis by (simp add: items_step_def)
  next
    case (Some items)
    then have m: "(''items'', items) \<in> set kvs" using g1 by (simp add: get_mem)
    with ft have "schema_typed items" using fields_typed_mem[of kvs "''items''" items] by simp
    moreover have "size items < size s" using size_object_value[OF m] s by simp
    ultimately obtain i' where "normalize items = Inr i'" using sub by blast
    with Some show ?thesis by (simp add: items_step_def)
  qed
  then obtain r2 where r2: "items_step normalize r1 = Inr r2" by blast
  have g2: "get r2 ''anyOf'' = get kvs ''anyOf''"
    using items_step_keys(3)[OF r2, of "''anyOf''"] g1 by simp
  \<comment> \<open>the third step\<close>
  have "\<exists>r. anyOf_step normalize r2 = Inr r"
  proof (cases "get r2 ''anyOf''")
    case None
    then show ?thesis by (simp add: anyOf_step_def)
  next
    case (Some anyOf)
    then have m: "(''anyOf'', anyOf) \<in> set kvs" using g2 by (simp add: get_mem)
    with ft obtain branches where b: "anyOf = JArr branches" "branches_typed branches"
      using fields_typed_mem[of kvs "''anyOf''" anyOf] by auto
    have "\<forall>r \<in> set (map normalize branches). \<exists>x. r = Inr x"
    proof
      fix r
      assume "r \<in> set (map normalize branches)"
      then obtain x where x: "x \<in> set branches" "r = normalize x" by auto
      have "size x < size anyOf" using size_array_element[OF x(1)] b(1) by simp
      moreover have "size anyOf < size s" using size_object_value[OF m] s by simp
      ultimately show "\<exists>y. r = Inr y"
        using sub[of x] branches_typed_mem[OF b(2) x(1)] x(2) by auto
    qed
    from collect_total[OF this] obtain branches' where
      "collect (map normalize branches) = Inr branches'" by blast
    with Some b(1) show ?thesis by (simp add: anyOf_step_def)
  qed
  moreover have "normalize s = anyOf_step normalize r2"
    by (rule normalize_chainI[OF _ _ r1 r2]) (simp_all add: s)
  ultimately show ?case by simp
qed


lemma object_schema_shape:
  assumes d: "distinct (map fst kvs)"
    and t: "get kvs ''type'' = Some (JStr ''object'')"
    and p: "get kvs ''properties'' = Some props"
    and tp: "truthy props"
    and dp: "distinct (map fst (entries props))" "''__proto__'' \<notin> set (map fst (entries props))"
    and n: "normalize (JObj kvs) = Inr r"
  shows "\<exists>kvs' ps'. r = JObj kvs' \<and>
      get kvs' ''required'' = Some (JArr (map JStr (keys props))) \<and>
      get kvs' ''additionalProperties'' = Some (JBool False) \<and>
      get kvs' ''properties'' = Some (JObj ps') \<and>
      map fst ps' = keys props \<and>
      map (normalize \<circ> snd) (entries props) = map (Inr \<circ> snd) ps'"
proof -
  let ?r0 = "copy_supported (entries (JObj kvs))"
  have sk: "''properties'' \<in> set supportedKeys" "''type'' \<in> set supportedKeys"
    by (simp_all add: supportedKeys_def)
  have g0: "get ?r0 ''properties'' = Some props" "get ?r0 ''type'' = Some (JStr ''object'')"
    using d t p sk by (simp_all add: get_copy_supported)
  from n obtain r1 r2 where
    1: "properties_step normalize ?r0 = Inr r1" and
    2: "items_step normalize r1 = Inr r2" and
    3: "anyOf_step normalize r2 = Inr r"
    by (rule normalize_chain[rotated 2]) simp_all
  from 1 obtain newProps where
    c: "collect (map (\<lambda>(key, v). map_sum id (Pair key) (normalize v)) (entries props)) = Inr newProps"
    and r1: "r1 = assign ''properties'' (JObj (build_object newProps))
              (assign ''additionalProperties'' (JBool False)
                (assign ''required'' (JArr (map JStr (keys props))) ?r0))"
    using g0 tp by (cases rule: properties_step_cases) auto
  from c have np: "map fst newProps = map fst (entries props)"
      "map (normalize \<circ> snd) (entries props) = map (Inr \<circ> snd) newProps"
    by (simp_all add: collect_properties)
  have b: "build_object newProps = newProps"
    using dp np(1) by (simp add: build_object_distinct del: set_map)
  have g1: "get r1 ''required'' = Some (JArr (map JStr (keys props)))"
      "get r1 ''additionalProperties'' = Some (JBool False)"
      "get r1 ''properties'' = Some (JObj newProps)"
    unfolding r1 b by (simp_all add: get_assign_same get_assign_other)
  have g2: "get r2 ''required'' = get r1 ''required''"
      "get r2 ''additionalProperties'' = get r1 ''additionalProperties''"
      "get r2 ''properties'' = get r1 ''properties''"
    using items_step_keys(3)[OF 2] by simp_all
  from anyOf_step_keys[OF 3] obtain r3 where r3: "r = JObj r3"
    and g3: "\<forall>k. k \<noteq> ''anyOf'' \<longrightarrow> get r3 k = get r2 k" by blast
  have "get r3 ''required'' = Some (JArr (map JStr (keys props)))"
      "get r3 ''additionalProperties'' = Some (JBool False)"
      "get r3 ''properties'' = Some (JObj newProps)"
    using g1 g2 g3 by simp_all
  with r3 np show ?thesis by (auto simp: keys_def)
qed

text \<open>
  For a schema of type \<open>object\<close> with properties none of which is named \<open>__proto__\<close>,
  \<open>prepareSchemaForStrictMode\<close> returns an object whose \<open>required\<close> is the list of the
  property names, whose \<open>additionalProperties\<close> is \<open>false\<close>, and whose properties are
  the same names in the same order, each with its schema normalised.
\<close>

lemma object_schema_strict:
  assumes "schema_typed (JObj kvs)"
    and "get kvs ''type'' = Some (JStr ''object'')"
    and "get kvs ''properties'' = Some (JObj ps)"
    and "''__proto__'' \<notin> set (map fst ps)"
  shows "\<exists>kvs' ps'. normalize (JObj kvs) = Inr (JObj kvs') \<and>
      get kvs' ''required'' = Some (JArr (map JStr (map fst ps))) \<and>
      get kvs' ''additionalProperties'' = Some (JBool False) \<and>
      get kvs' ''properties'' = Some (JObj ps') \<and>
      map fst ps' = map fst ps \<and>
      map (normalize \<circ> snd) ps = map (Inr \<circ> snd) ps'"
proof -
  from assms(1) have d: "distinct (map fst kvs)" and ft: "fields_typed kvs" by simp_all
  from normalize_total[OF assms(1)] obtain r where n: "normalize (JObj kvs) = Inr r" by blast
  have "(''properties'', JObj ps) \<in> set kvs" using assms(3) by (rule get_mem)
  with ft have dp: "distinct (map fst (entries (JObj ps)))"
    using fields_typed_mem[of kvs "''properties''" "JObj ps"] by simp
  have np: "''__proto__'' \<notin> set (map fst (entries (JObj ps)))" using assms(4) by simp
  from object_schema_shape[OF d assms(2) assms(3) _ dp np n] n
  show ?thesis by (auto simp: keys_def)
qed

text \<open>The example of the specification: properties \<open>a\<close> and \<open>b\<close>, no \<open>required\<close>.\<close>

lemma two_property_schema:
  "normalize (JObj [(''type'', JStr ''object''),
                    (''properties'', JObj [(''a'', JObj [(''type'', JStr ''string''), (''maxLength'', JNum 5)]),
                                          (''b'', JObj [(''type'', JStr ''integer'')])])])
   = Inr (JObj [(''type'', JStr ''object''),
                (''properties'', JObj [(''a'', JObj [(''type'', JStr ''string'')]),
                                      (''b'', JObj [(''type'', JStr ''integer'')])]),
                (''required'', JArr [JStr ''a'', JStr ''b'']),
                (''additionalProperties'', JBool False)])"
  by code_simp

text \<open>
  Claim C1: every property of an object schema is listed in \<open>required\<close> and is kept,
  normalised, in \<open>properties\<close>. A property named \<open>__proto__\<close> is listed in
  \<open>required\<close> and is lost from \<open>properties\<close>: the assignment that should store its
  normalised schema sets the prototype of \<open>newProps\<close> instead.
\<close>

theorem proto_property_dropped:
  "normalize (JObj [(''type'', JStr ''object''),
                    (''properties'', JObj [(''__proto__'', JObj [(''type'', JStr ''string'')])])])
   = Inr (JObj [(''type'', JStr ''object''),
                (''properties'', JObj []),
                (''required'', JArr [JStr ''__proto__'']),
                (''additionalProperties'', JBool False)])"
  by code_simp

section \<open>Idempotence\<close>

lemma digit_char_inj: "a < 10 \<Longrightarrow> b < 10 \<Longrightarrow> digit_char a = digit_char b \<Longrightarrow> a = b"
proof -
  assume a: "a < 10" and b: "b < 10" and e: "digit_char a = digit_char b"
  have "48 + a = (of_char (digit_char a) :: nat)" using a by (rule digit_char_is_digit[symmetric])
  also have "\<dots> = of_char (digit_char b)" by (rule arg_cong[OF e])
  also have "\<dots> = 48 + b" using b by (rule digit_char_is_digit)
  finally show ?thesis by (rule add_left_imp_eq)
qed

lemma show_nat_small: "n < 10 \<Longrightarrow> show_nat n = [digit_char n]"
  by (subst show_nat.simps) simp

lemma show_nat_large:
  "\<not> n < 10 \<Longrightarrow> show_nat n = show_nat (n div 10) @ [digit_char (n mod 10)]"
  by (subst show_nat.simps) simp

lemma show_nat_inj: "show_nat n = show_nat m \<Longrightarrow> n = m"
proof (induction n arbitrary: m rule: show_nat.induct)
  case (1 n)
  show ?case
  proof (cases "n < 10")
    case n: True
    show ?thesis
    proof (cases "m < 10")
      case True
      with n "1.prems" show ?thesis by (simp add: show_nat_small digit_char_inj)
    next
      case False
      with n "1.prems" show_nat_nonempty[of "m div 10"] show ?thesis
        by (simp add: show_nat_small show_nat_large)
    qed
  next
    case n: False
    show ?thesis
    proof (cases "m < 10")
      case True
      with n "1.prems" show_nat_nonempty[of "n div 10"] show ?thesis
        by (simp add: show_nat_small show_nat_large)
    next
      case False
      with n "1.prems" have "show_nat (n div 10) = show_nat (m div 10)"
        and "digit_char (n mod 10) = digit_char (m mod 10)"
        by (simp_all add: show_nat_large)
      then have "n div 10 = m div 10" "n mod 10 = m mod 10"
        using "1.IH"[OF n] by (simp_all add: digit_char_inj)
      then show ?thesis by (metis div_mult_mod_eq)
    qed
  qed
qed

lemma distinct_index_names: "distinct (map show_nat [0..<n])"
  by (simp add: distinct_map inj_on_def show_nat_inj)

lemma entries_distinct: "wf_json s \<Longrightarrow> distinct (map fst (entries s))"
  by (cases s) (simp_all add: distinct_index_names)

lemma entries_wf: "wf_json s \<Longrightarrow> (k, v) \<in> set (entries s) \<Longrightarrow> wf_json v"
proof (cases s)
  case (JArr xs)
  assume "wf_json s" "(k, v) \<in> set (entries s)"
  with JArr show ?thesis by (auto simp: list_all_iff dest!: set_zip_rightD)
next
  case (JObj kvs)
  assume "wf_json s" "(k, v) \<in> set (entries s)"
  with JObj show ?thesis by (auto simp: list_all_iff)
next
  case (JStr str)
  assume "(k, v) \<in> set (entries s)"
  with JStr show ?thesis by (auto dest!: set_zip_rightD)
qed auto

lemma entries_size_le: "(k, v) \<in> set (entries s) \<Longrightarrow> size v \<le> size s"
proof (cases s)
  case (JArr xs)
  assume "(k, v) \<in> set (entries s)"
  with JArr have "v \<in> set xs" by (auto dest: set_zip_rightD)
  from size_array_element[OF this] JArr show ?thesis by simp
next
  case (JObj kvs)
  assume "(k, v) \<in> set (entries s)"
  with JObj have "(k, v) \<in> set kvs" by simp
  from size_object_value[OF this] JObj show ?thesis by simp
next
  case (JStr str)
  assume "(k, v) \<in> set (entries s)"
  with JStr show ?thesis by (auto dest!: set_zip_rightD)
qed auto

lemma entries_size_less:
  "(k, v) \<in> set (entries s) \<Longrightarrow> truthy s \<Longrightarrow> typeof_object s \<Longrightarrow> size v < size s"
proof (cases s)
  case (JArr xs)
  assume "(k, v) \<in> set (entries s)"
  with JArr have "v \<in> set xs" by (auto dest: set_zip_rightD)
  from size_array_element[OF this] JArr show ?thesis by simp
next
  case (JObj kvs)
  assume "(k, v) \<in> set (entries s)"
  with JObj have "(k, v) \<in> set kvs" by simp
  from size_object_value[OF this] JObj show ?thesis by simp
qed auto

lemma normalize_scalar: "\<not> (truthy s \<and> typeof_object s) \<Longrightarrow> normalize s = Inr s"
  by (subst normalize_steps) auto

lemma normalize_truthy: "normalize s = Inr r \<Longrightarrow> truthy s \<Longrightarrow> truthy r"
proof (cases "typeof_object s")
  case True
  assume "normalize s = Inr r" "truthy s"
  with True normalize_object_keys[of s r] show ?thesis by auto
next
  case False
  assume "normalize s = Inr r" "truthy s"
  with False normalize_scalar[of s] show ?thesis by simp
qed

lemma get_copy_supported_mem:
  "distinct (map fst es) \<Longrightarrow> get (copy_supported es) k = Some v \<Longrightarrow> (k, v) \<in> set es"
proof -
  assume "distinct (map fst es)" "get (copy_supported es) k = Some v"
  then have "get (filter (\<lambda>kv. fst kv \<in> set supportedKeys) es) k = Some v"
    by (simp add: copy_supported_distinct)
  from get_mem[OF this] show ?thesis by simp
qed


lemma properties_step_idem:
  assumes step: "properties_step f r = Inr r1"
    and d3: "distinct (map fst r3)"
    and g: "get r3 ''properties'' = get r1 ''properties''" "get r3 ''type'' = get r1 ''type''"
      "get r3 ''required'' = get r1 ''required''"
      "get r3 ''additionalProperties'' = get r1 ''additionalProperties''"
    and idem: "\<And>props k v v'. get r ''properties'' = Some props \<Longrightarrow>
        (k, v) \<in> set (entries props) \<Longrightarrow> f v = Inr v' \<Longrightarrow> f v' = Inr v'"
    and dist: "\<And>props. get r ''properties'' = Some props \<Longrightarrow>
        distinct (map fst (entries props)) \<and> ''__proto__'' \<notin> set (map fst (entries props))"
  shows "properties_step f r3 = Inr r3"
  using step
proof (cases rule: properties_step_cases)
  case unchanged
  then have "\<not> (\<exists>props. get r3 ''properties'' = Some props \<and>
      get r3 ''type'' = Some (JStr ''object'') \<and> truthy props)"
    using g by simp
  then show ?thesis by (auto simp: properties_step_def split: option.splits)
next
  case (rewritten props newProps)
  from rewritten(4) have np: "map fst newProps = map fst (entries props)"
      "map (f \<circ> snd) (entries props) = map (Inr \<circ> snd) newProps"
    by (simp_all add: collect_properties)
  have b: "build_object newProps = newProps"
    using dist[OF rewritten(1)] np(1) by (simp add: build_object_distinct del: set_map)
  have g1: "get r1 ''required'' = Some (JArr (map JStr (keys props)))"
      "get r1 ''additionalProperties'' = Some (JBool False)"
      "get r1 ''properties'' = Some (JObj newProps)"
      "get r1 ''type'' = Some (JStr ''object'')"
    unfolding rewritten(5) b using rewritten(2)
    by (simp_all add: get_assign_same get_assign_other)
  have len: "length newProps = length (entries props)"
    using np(1) by (metis length_map)
  have fixed: "f (snd n) = Inr (snd n)" if "n \<in> set newProps" for n
  proof -
    from that obtain i where i: "i < length newProps" "newProps ! i = n"
      by (auto simp: in_set_conv_nth)
    let ?e = "entries props ! i"
    have "map (f \<circ> snd) (entries props) ! i = map (Inr \<circ> snd) newProps ! i"
      using np(2) by simp
    then have "f (snd ?e) = Inr (snd n)" using i len by simp
    moreover have "(fst ?e, snd ?e) \<in> set (entries props)" using i len by simp
    ultimately show ?thesis using idem[OF rewritten(1)] by blast
  qed
  have c: "collect (map (\<lambda>(key, v). map_sum id (Pair key) (f v)) (entries (JObj newProps)))
             = Inr newProps"
    using fixed by (simp add: collect_properties)
  have k: "keys (JObj newProps) = keys props" using np(1) by (simp add: keys_def)
  have "properties_step f r3 =
          Inr (assign ''properties'' (JObj (build_object newProps))
                (assign ''additionalProperties'' (JBool False)
                  (assign ''required'' (JArr (map JStr (keys props))) r3)))"
    using g g1 c k by (simp add: properties_step_def)
  also have "assign ''required'' (JArr (map JStr (keys props))) r3 = r3"
    using d3 g g1 by (simp add: assign_same)
  also have "assign ''additionalProperties'' (JBool False) r3 = r3"
    using d3 g g1 by (simp add: assign_same)
  also have "assign ''properties'' (JObj (build_object newProps)) r3 = r3"
    using d3 g g1 b by (simp add: assign_same)
  finally show ?thesis .
qed

lemma items_step_idem:
  assumes step: "items_step f r1 = Inr r2"
    and d3: "distinct (map fst r3)"
    and g: "get r3 ''items'' = get r2 ''items''" "get r3 ''type'' = get r2 ''type''"
    and idem: "\<And>items items'. get r1 ''items'' = Some items \<Longrightarrow> truthy items \<Longrightarrow>
        f items = Inr items' \<Longrightarrow> f items' = Inr items' \<and> truthy items'"
  shows "items_step f r3 = Inr r3"
  using step
proof (cases rule: items_step_cases)
  case unchanged
  then have "\<not> (\<exists>items. get r3 ''items'' = Some items \<and>
      get r3 ''type'' = Some (JStr ''array'') \<and> truthy items)"
    using g by simp
  then show ?thesis by (auto simp: items_step_def split: option.splits)
next
  case (rewritten items items')
  have g2: "get r2 ''items'' = Some items'" "get r2 ''type'' = Some (JStr ''array'')"
    unfolding rewritten(5) using rewritten(2) by (simp_all add: get_assign_same get_assign_other)
  from idem[OF rewritten(1,3,4)] have i: "f items' = Inr items'" "truthy items'" by simp_all
  have "items_step f r3 = Inr (assign ''items'' items' r3)"
    using g g2 i by (simp add: items_step_def)
  also have "assign ''items'' items' r3 = r3"
    using d3 g g2 by (simp add: assign_same)
  finally show ?thesis .
qed

lemma anyOf_step_idem:
  assumes step: "anyOf_step f r2 = Inr (JObj r3)"
    and d2: "distinct (map fst r2)"
    and idem: "\<And>branches b b'. get r2 ''anyOf'' = Some (JArr branches) \<Longrightarrow>
        b \<in> set branches \<Longrightarrow> f b = Inr b' \<Longrightarrow> f b' = Inr b'"
  shows "anyOf_step f r3 = Inr (JObj r3)"
  using step
proof (cases rule: anyOf_step_cases)
  case unchanged
  then show ?thesis by (auto simp: anyOf_step_def split: option.splits)
next
  case (rewritten branches branches')
  from rewritten(3) have r3: "r3 = assign ''anyOf'' (JArr branches') r2" by simp
  have g3: "get r3 ''anyOf'' = Some (JArr branches')" by (simp add: r3 get_assign_same)
  have d3: "distinct (map fst r3)" using d2 by (simp add: r3 distinct_assign)
  from rewritten(2) have m: "map f branches = map Inr branches'" by (simp add: collect_Inr)
  then have len: "length branches' = length branches" by (metis length_map)
  have fixed: "f b' = Inr b'" if "b' \<in> set branches'" for b'
  proof -
    from that obtain i where i: "i < length branches'" "branches' ! i = b'"
      by (auto simp: in_set_conv_nth)
    have "map f branches ! i = map Inr branches' ! i" using m by simp
    then have "f (branches ! i) = Inr b'" using i len by simp
    moreover have "branches ! i \<in> set branches" using i len by simp
    ultimately show ?thesis using idem[OF rewritten(1)] by blast
  qed
  then have "map f branches' = map Inr branches'" by simp
  then have c: "collect (map f branches') = Inr branches'" by (simp add: collect_Inr)
  have "anyOf_step f r3 = Inr (JObj (assign ''anyOf'' (JArr branches') r3))"
    using g3 c by (simp add: anyOf_step_def)
  also have "assign ''anyOf'' (JArr branches') r3 = r3"
    using d3 g3 by (simp add: assign_same)
  finally show ?thesis .
qed


lemma entries_proto_free: "proto_free s \<Longrightarrow> (k, v) \<in> set (entries s) \<Longrightarrow> proto_free v"
proof (cases s)
  case (JArr xs)
  assume "proto_free s" "(k, v) \<in> set (entries s)"
  with JArr show ?thesis by (auto simp: list_all_iff dest!: set_zip_rightD)
next
  case (JObj kvs)
  assume "proto_free s" "(k, v) \<in> set (entries s)"
  with JObj show ?thesis by (auto simp: list_all_iff)
next
  case (JStr str)
  assume "(k, v) \<in> set (entries s)"
  with JStr show ?thesis by (auto dest!: set_zip_rightD)
qed auto

lemma index_name_not_proto: "show_nat n \<noteq> ''__proto__''"
proof
  assume a: "show_nat n = ''__proto__''"
  have "\<forall>c \<in> set (show_nat n). (of_char c :: nat) < 58"
    using show_nat_digits[of n] by (auto simp: digit_char_def)
  then show False unfolding a by simp
qed

lemma index_names_no_proto: "''__proto__'' \<notin> set (map show_nat ns)"
proof
  assume "''__proto__'' \<in> set (map show_nat ns)"
  then obtain n where "show_nat n = ''__proto__''" by auto
  then show False using index_name_not_proto by blast
qed

lemma entries_no_proto: "proto_free s \<Longrightarrow> ''__proto__'' \<notin> set (map fst (entries s))"
proof (cases s)
  case (JArr xs)
  have "map fst (entries (JArr xs)) = map show_nat [0..<length xs]" by simp
  then show ?thesis using JArr index_names_no_proto[of "[0..<length xs]"] by simp
next
  case (JStr str)
  have "map fst (entries (JStr str)) = map show_nat [0..<length str]" by simp
  then show ?thesis using JStr index_names_no_proto[of "[0..<length str]"] by simp
qed auto

lemma normalize_fixed:
  "wf_json s \<Longrightarrow> proto_free s \<Longrightarrow> normalize s = Inr r \<Longrightarrow> normalize r = Inr r"
proof (induction s arbitrary: r rule: measure_induct_rule[of size])
  case (less s)
  show ?case
  proof (cases "truthy s \<and> typeof_object s")
    case False
    then have "normalize s = Inr s" by (rule normalize_scalar)
    with less.prems show ?thesis by simp
  next
    case True
    let ?r0 = "copy_supported (entries s)"
    from True less.prems(3) obtain r1 r2 where
      1: "properties_step normalize ?r0 = Inr r1" and
      2: "items_step normalize r1 = Inr r2" and
      3: "anyOf_step normalize r2 = Inr r"
      by (auto elim: normalize_chain)
    from anyOf_step_keys[OF 3] obtain r3 where r: "r = JObj r3"
      and k3: "set (map fst r3) \<subseteq> set (map fst r2) \<union> {''anyOf''}"
      and d32: "distinct (map fst r2) \<longrightarrow> distinct (map fst r3)"
      and g32: "\<forall>k. k \<noteq> ''anyOf'' \<longrightarrow> get r3 k = get r2 k" by blast
    have d0: "distinct (map fst ?r0)" by (rule copy_supported_keys_distinct)
    have d1: "distinct (map fst r1)" using properties_step_keys(2)[OF 1 d0] .
    have d2: "distinct (map fst r2)" using items_step_keys(2)[OF 2 d1] .
    have d3: "distinct (map fst r3)" using d32 d2 by simp
    have sup: "{''properties'', ''additionalProperties'', ''required'', ''items'', ''anyOf''}
                 \<subseteq> set supportedKeys"
      by (simp add: supportedKeys_def)
    have s3: "set (map fst r3) \<subseteq> set supportedKeys"
      using k3 items_step_keys(1)[OF 2] properties_step_keys(1)[OF 1]
        copy_supported_keys[of "entries s"] sup by blast
    have g21: "get r2 k = get r1 k" if "k \<noteq> ''items''" for k
      using items_step_keys(3)[OF 2 that] .
    have g10: "get r1 k = get ?r0 k"
      if "k \<notin> {''properties'', ''additionalProperties'', ''required''}" for k
      using properties_step_keys(3)[OF 1 that] .
    have e: "distinct (map fst (entries s))" using less.prems(1) by (rule entries_distinct)
    have val: "wf_json v \<and> proto_free v \<and> size v < size s" if "get ?r0 k = Some v" for k v
    proof -
      from get_copy_supported_mem[OF e that] have m: "(k, v) \<in> set (entries s)" .
      show ?thesis
        using entries_wf[OF less.prems(1) m] entries_proto_free[OF less.prems(2) m]
          entries_size_less[OF m] True by simp
    qed
    have IH: "normalize v' = Inr v'"
      if "wf_json v" "proto_free v" "size v < size s" "normalize v = Inr v'" for v v'
      using less.IH[of v v'] that by simp
    \<comment> \<open>the first step leaves the result as it is\<close>
    have P: "properties_step normalize r3 = Inr r3"
    proof (rule properties_step_idem[OF 1 d3])
      show "get r3 ''properties'' = get r1 ''properties''" using g32 g21 by simp
      show "get r3 ''type'' = get r1 ''type''" using g32 g21 by simp
      show "get r3 ''required'' = get r1 ''required''" using g32 g21 by simp
      show "get r3 ''additionalProperties'' = get r1 ''additionalProperties''" using g32 g21 by simp
    next
      fix props k v v'
      assume a: "get ?r0 ''properties'' = Some props" "(k, v) \<in> set (entries props)"
        "normalize v = Inr v'"
      from val[OF a(1)] have "wf_json props" "proto_free props" "size props < size s" by simp_all
      with entries_wf[OF _ a(2)] entries_proto_free[OF _ a(2)] entries_size_le[OF a(2)]
      have "wf_json v" "proto_free v" "size v < size s" by simp_all
      then show "normalize v' = Inr v'" using a(3) by (rule IH)
    next
      fix props
      assume "get ?r0 ''properties'' = Some props"
      from val[OF this] show "distinct (map fst (entries props)) \<and>
          ''__proto__'' \<notin> set (map fst (entries props))"
        using entries_distinct[of props] entries_no_proto[of props] by blast
    qed
    \<comment> \<open>so does the second\<close>
    have I: "items_step normalize r3 = Inr r3"
    proof (rule items_step_idem[OF 2 d3])
      show "get r3 ''items'' = get r2 ''items''" using g32 by simp
      show "get r3 ''type'' = get r2 ''type''" using g32 by simp
    next
      fix items items'
      assume a: "get r1 ''items'' = Some items" "truthy items" "normalize items = Inr items'"
      from a(1) have "get ?r0 ''items'' = Some items" using g10[of "''items''"] by simp
      from val[OF this] have "wf_json items" "proto_free items" "size items < size s" by simp_all
      then have "normalize items' = Inr items'" using a(3) by (rule IH)
      moreover have "truthy items'" using a(3) a(2) by (rule normalize_truthy)
      ultimately show "normalize items' = Inr items' \<and> truthy items'" by simp
    qed
    \<comment> \<open>and the third\<close>
    have A: "anyOf_step normalize r3 = Inr (JObj r3)"
    proof (rule anyOf_step_idem[OF 3[unfolded r] d2])
      fix branches b b'
      assume a: "get r2 ''anyOf'' = Some (JArr branches)" "b \<in> set branches" "normalize b = Inr b'"
      from a(1) have "get ?r0 ''anyOf'' = Some (JArr branches)"
        using g21[of "''anyOf''"] g10[of "''anyOf''"] by simp
      from val[OF this] have w: "wf_json (JArr branches)" "proto_free (JArr branches)"
        "size (JArr branches) < size s"
        by simp_all
      have "wf_json b" using w(1) a(2) by (simp add: list_all_iff)
      moreover have "proto_free b" using w(2) a(2) by (simp add: list_all_iff)
      moreover have "size b < size s" using size_array_element[OF a(2)] w(3) by simp
      ultimately show "normalize b' = Inr b'" using a(3) by (rule IH)
    qed
    have c: "copy_supported (entries (JObj r3)) = r3"
      using d3 s3 by (simp add: copy_supported_fixed)
    have "normalize (JObj r3) = anyOf_step normalize r3"
      by (rule normalize_chainI[of "JObj r3" r3 r3]) (simp_all add: c P I del: entries.simps)
    with A r show ?thesis by simp
  qed
qed

text \<open>
  \<open>prepareSchemaForStrictMode\<close> is idempotent on the values in which no object has a key
  twice or a property named \<open>__proto__\<close>: applied to what it returned, it returns the
  same again, and where it throws, applying it twice throws the same.
\<close>

lemma normalize_idempotent:
  "wf_json s \<Longrightarrow> proto_free s \<Longrightarrow> bind (normalize s) normalize = normalize s"
proof (cases "normalize s")
  case (Inl e)
  then show ?thesis by (simp add: bind_def)
next
  case (Inr r)
  assume "wf_json s" "proto_free s"
  from normalize_fixed[OF this Inr] Inr show ?thesis by (simp add: bind_def)
qed

text \<open>
  Claim C2: \<open>normalize(normalize(s)) = normalize(s)\<close> for every schema. For a schema
  with a property named \<open>__proto__\<close> the first pass lists the name in \<open>required\<close> and
  loses the property; the second pass computes \<open>required\<close> from the properties that
  are left, and returns another value.
\<close>

theorem proto_property_not_idempotent:
  "normalize (JObj [(''type'', JStr ''object''),
                    (''properties'', JObj [(''__proto__'', JObj [(''type'', JStr ''string'')])])])
   = Inr (JObj [(''type'', JStr ''object''),
                (''properties'', JObj []),
                (''required'', JArr [JStr ''__proto__'']),
                (''additionalProperties'', JBool False)]) \<and>
   normalize (JObj [(''type'', JStr ''object''),
                (''properties'', JObj []),
                (''required'', JArr [JStr ''__proto__'']),
                (''additionalProperties'', JBool False)])
   = Inr (JObj [(''type'', JStr ''object''),
                (''properties'', JObj []),
                (''required'', JArr []),
                (''additionalProperties'', JBool False)])"
  by code_simp

end
